theory Spec2Isabelle
  imports Main "HOL-Library.Sublist"
begin

section \<open>Python library functions used by the checks\<close>

text \<open>
  A Python \<open>str\<close> is modelled as a \<open>string\<close>; a \<open>char\<close> stands for the code point of the
  same number (0 to 255).
\<close>

datatype error = ValueError | IndexError

subsection \<open>Character classes\<close>

text \<open>
  The characters below 256 for which \<open>str.isspace\<close> holds. \<open>str.strip()\<close> removes them and
  the pattern \<open>\s\<close> matches them: tab, line feed, vertical tab, form feed, carriage return,
  the four separators 0x1C to 0x1F, space, next line (0x85) and no-break space (0xA0).
\<close>

definition whitespace :: "char set" where
  "whitespace = set [CHR 0x09, CHR 0x0A, CHR 0x0B, CHR 0x0C, CHR 0x0D,
     CHR 0x1C, CHR 0x1D, CHR 0x1E, CHR 0x1F, CHR 0x20, CHR 0x85, CHR 0xA0]"

text \<open>The class \<open>[0-9]\<close>.\<close>

definition digit :: "char set" where
  "digit = set ''0123456789''"

text \<open>The pattern \<open>.\<close> (without the DOTALL flag): every character but the line feed.\<close>

definition dot :: "char set" where
  "dot = - {CHR 0x0A}"

subsection \<open>Methods of \<open>str\<close>\<close>

text \<open>\<open>s.strip()\<close>\<close>

definition strip :: "string \<Rightarrow> string" where
  "strip s = rev (dropWhile (\<lambda>c. c \<in> whitespace) (rev (dropWhile (\<lambda>c. c \<in> whitespace) s)))"

text \<open>
  \<open>s.find(sub, start)\<close>, here \<open>find_str\<close>: the lowest index at or after \<open>start\<close> where \<open>sub\<close> begins,
  or \<open>-1\<close>. \<open>find_at\<close> walks \<open>s[i:]\<close> with the index \<open>i\<close> of its first character.
\<close>

fun find_at :: "string \<Rightarrow> string \<Rightarrow> nat \<Rightarrow> int" where
  "find_at sub [] i = (if sub = [] then int i else - 1)"
| "find_at sub (c # s) i = (if prefix sub (c # s) then int i else find_at sub s (Suc i))"

definition find_str :: "string \<Rightarrow> string \<Rightarrow> nat \<Rightarrow> int" where
  "find_str s sub start = (if length s < start then - 1 else find_at sub (drop start s) start)"

text \<open>\<open>s.endswith(suffix)\<close>\<close>

definition endswith :: "string \<Rightarrow> string \<Rightarrow> bool" where
  "endswith s suf = suffix suf s"

text \<open>\<open>s.split(sep)\<close> for a separator of one character.\<close>

fun split :: "char \<Rightarrow> string \<Rightarrow> string list" where
  "split sep [] = [[]]"
| "split sep (c # s) =
     (if c = sep then [] # split sep s
      else (case split sep s of [] \<Rightarrow> [[c]] | p # ps \<Rightarrow> (c # p) # ps))"

text \<open>
  \<open>int(s)\<close> on the strings the year pattern can yield: decimal digits with white space
  around them. Python's \<open>int\<close> accepts a sign and underscores between digits as well; a
  piece of a match of the year pattern has neither, and everything else is the
  \<open>ValueError\<close> here.
\<close>

definition digit_value :: "char \<Rightarrow> int" where
  "digit_value c = int (of_char c) - 48"

definition decimal :: "string \<Rightarrow> int" where
  "decimal s = foldl (\<lambda>n c. 10 * n + digit_value c) 0 s"

definition py_int :: "string \<Rightarrow> error + int" where
  "py_int s =
     (let t = strip s
      in if t \<noteq> [] \<and> set t \<subseteq> digit then Inr (decimal t) else Inl ValueError)"

text \<open>The list comprehension \<open>[int(year) for year in years]\<close>: the first error ends it.\<close>

fun ints :: "string list \<Rightarrow> error + int list" where
  "ints [] = Inr []"
| "ints (y # ys) =
     (case py_int y of
        Inl e \<Rightarrow> Inl e
      | Inr n \<Rightarrow> (case ints ys of Inl e \<Rightarrow> Inl e | Inr ns \<Rightarrow> Inr (n # ns)))"

subsection \<open>The pattern language of \<open>re\<close>\<close>

text \<open>
  The constructs the three patterns of the source use: a character class (a literal
  character is the class of that character), sequence, the greedy \<open>r?\<close>, and the greedy
  \<open>c*\<close> and lazy \<open>c*?\<close> of a character class.
\<close>

datatype rexp =
    Eps
  | Cls "char set"
  | Seq rexp rexp
  | Opt rexp
  | Star "char set"
  | Lazy_star "char set"

text \<open>A literal word, \<open>r{n}\<close>, and a sequence of several patterns.\<close>

fun lit :: "string \<Rightarrow> rexp" where
  "lit [] = Eps"
| "lit (c # w) = Seq (Cls {c}) (lit w)"

fun rep :: "nat \<Rightarrow> rexp \<Rightarrow> rexp" where
  "rep 0 r = Eps"
| "rep (Suc n) r = Seq r (rep n r)"

fun seqs :: "rexp list \<Rightarrow> rexp" where
  "seqs [] = Eps"
| "seqs (r # rs) = Seq r (seqs rs)"

text \<open>
  The backtracking matcher of \<open>re\<close>: \<open>ends r s\<close> lists what is left of \<open>s\<close> after each
  way \<open>r\<close> matches at its start, in the order the matcher tries them. A greedy construct
  tries the longer alternative first, a lazy one the shorter. The match \<open>re\<close> reports is
  the first of the list.
\<close>

fun ends :: "rexp \<Rightarrow> string \<Rightarrow> string list" where
  "ends Eps s = [s]"
| "ends (Cls A) [] = []"
| "ends (Cls A) (c # s) = (if c \<in> A then [s] else [])"
| "ends (Seq r1 r2) s = concat (map (ends r2) (ends r1 s))"
| "ends (Opt r) s = ends r s @ [s]"
| "ends (Star A) [] = [[]]"
| "ends (Star A) (c # s) = (if c \<in> A then ends (Star A) s @ [c # s] else [c # s])"
| "ends (Lazy_star A) [] = [[]]"
| "ends (Lazy_star A) (c # s) = (c # s) # (if c \<in> A then ends (Lazy_star A) s else [])"

text \<open>
  \<open>re.search(pattern, s)\<close>: the match at the first position where the pattern matches,
  or \<open>None\<close>. The match object is modelled by its \<open>group(0)\<close>, the text matched.
\<close>

fun re_search :: "rexp \<Rightarrow> string \<Rightarrow> string option" where
  "re_search r [] = (case ends r [] of [] \<Rightarrow> None | e # _ \<Rightarrow> Some [])"
| "re_search r (c # s) =
     (case ends r (c # s) of
        [] \<Rightarrow> re_search r s
      | e # _ \<Rightarrow> Some (take (length (c # s) - length e) (c # s)))"

section \<open>check\_copyright.py\<close>

definition YEAR :: int where
  "YEAR = 2019"

definition SUBSTRING_IS_NOT_FOUND :: int where
  "SUBSTRING_IS_NOT_FOUND = - 1"

subsection \<open>get\_leading\_comments\<close>

text \<open>
  The state of the loop is the list \<open>comments\<close> and the flag \<open>multiline_comment\<close>. One
  pass of the loop body either goes on to the next line (\<open>continue\<close>, or the end of the
  body) or leaves the loop (\<open>break\<close>).
\<close>

datatype 'a ctl = Continue 'a | Break 'a

definition body :: "string \<Rightarrow> string list \<times> bool \<Rightarrow> (string list \<times> bool) ctl" where
  "body raw st =
     (let comments = fst st; multiline_comment = snd st; line = strip raw
      in if line = [] then Continue (comments, multiline_comment)
         else if \<not> multiline_comment then
           (let found_pos = find_str line ''/*'' 0
            in if found_pos \<ge> 0 then
                 (if find_str line ''*/'' (nat found_pos) = SUBSTRING_IS_NOT_FOUND
                  then Continue (comments @ [line], True)
                  else Continue (comments @ [line], multiline_comment))
               else if find_str line ''//'' 0 \<ge> 0 then Continue (comments @ [line], multiline_comment)
               else Break (comments, multiline_comment))
         else
           (if find_str line ''*/'' 0 \<ge> 0
            then Continue (comments @ [line], False)
            else Continue (comments @ [line], multiline_comment)))"

text \<open>The \<open>for\<close> loop over the stream: \<open>Continue\<close> when the stream is used up.\<close>

fun for_lines :: "string list \<Rightarrow> string list \<times> bool \<Rightarrow> (string list \<times> bool) ctl" where
  "for_lines [] st = Continue st"
| "for_lines (raw # stream) st =
     (case body raw st of
        Continue st' \<Rightarrow> for_lines stream st'
      | Break st' \<Rightarrow> Break st')"

definition get_leading_comments :: "string list \<Rightarrow> string list" where
  "get_leading_comments stream =
     (case for_lines stream ([], False) of
        Continue st \<Rightarrow> fst st
      | Break st \<Rightarrow> fst st)"

subsection \<open>The three patterns\<close>

text \<open>\<^verbatim>\<open>.*[Cc]opyright\s?.*([0-9]{4}).*\<close>\<close>

definition copyright_pattern :: rexp where
  "copyright_pattern =
     seqs [Star dot, Cls {CHR ''C'', CHR ''c''}, lit ''opyright'', Opt (Cls whitespace),
           Star dot, rep 4 (Cls digit), Star dot]"

text \<open>\<^verbatim>\<open>.*Copyright\s*?\([cC]\)\s*[0-9 \-]*\s*?Intel\s*?Corporation.*\<close>\<close>

definition intel_pattern :: rexp where
  "intel_pattern =
     seqs [Star dot, lit ''Copyright'', Lazy_star whitespace,
           lit ''('', Cls {CHR ''c'', CHR ''C''}, lit '')'', Star whitespace,
           Star (digit \<union> {CHR '' '', CHR ''-''}),
           Lazy_star whitespace, lit ''Intel'', Lazy_star whitespace, lit ''Corporation'',
           Star dot]"

text \<open>\<^verbatim>\<open>([0-9]{4}\ ?\-\ ?)?([0-9]{4})\<close>\<close>

definition year_pattern :: rexp where
  "year_pattern =
     seqs [Opt (seqs [rep 4 (Cls digit), Opt (Cls {CHR '' ''}), Cls {CHR ''-''},
                      Opt (Cls {CHR '' ''})]),
           rep 4 (Cls digit)]"

subsection \<open>get\_copyright\_strings, is\_intel\_copyright, get\_copyright\_year\_or\_range\<close>

text \<open>The loop appends every tested string the pattern is found in.\<close>

definition get_copyright_strings :: "string list \<Rightarrow> string list" where
  "get_copyright_strings tested_strings =
     filter (\<lambda>tested_string. re_search copyright_pattern tested_string \<noteq> None) tested_strings"

text \<open>Returns the match object or \<open>None\<close>; the caller tests its truth value.\<close>

definition is_intel_copyright :: "string \<Rightarrow> string option" where
  "is_intel_copyright tested_string = re_search intel_pattern tested_string"

text \<open>The dictionaries \<open>{'year': y}\<close> and \<open>{'range': years}\<close>.\<close>

datatype year_or_range = Single_year int | Year_range "int list"

definition get_copyright_year_or_range :: "string \<Rightarrow> error + year_or_range option" where
  "get_copyright_year_or_range tested_string =
     (case re_search year_pattern tested_string of
        None \<Rightarrow> Inr None
      | Some substring \<Rightarrow>
          (case ints (split (CHR ''-'') substring) of
             Inl e \<Rightarrow> Inl e
           | Inr years \<Rightarrow>
               if length years = 2 then Inr (Some (Year_range years))
               else (case years of [] \<Rightarrow> Inl IndexError | y # _ \<Rightarrow> Inr (Some (Single_year y)))))"

subsection \<open>CopyrightChecker\<close>

text \<open>
  The texts appended to \<open>details\<close>, each with the values its format string interpolates:
  \<^item> \<open>Src_file f\<close>: \<^verbatim>\<open>str(self.src_file) + ':'\<close>
  \<^item> \<open>Missing_copyright\<close>: \<^verbatim>\<open>"\tMissing copyright."\<close>
  \<^item> \<open>Too_many_copyrights cs\<close>: \<^verbatim>\<open>f"\tToo many copyrights: \n\t{copyright_strings}"\<close>
  \<^item> \<open>Incorrect_format c\<close>:
    \<^verbatim>\<open>f"\tIncorrect the copyright range need {YEAR} or [YEAR-]{YEAR} ex: 2014-{YEAR}\n\t{intel_copyright}"\<close>
  \<^item> \<open>Incorrect_year c\<close>:
    \<^verbatim>\<open>f"\tIncorrect the copyright year, [YEAR-]{YEAR} is needed:\n\t{intel_copyright}"\<close>
  \<^item> \<open>Incorrect_range c\<close>:
    \<^verbatim>\<open>f"\tIncorrect the copyright range [YEAR-]{YEAR} is needed\n\t{intel_copyright}"\<close>
\<close>

datatype detail =
    Src_file string
  | Missing_copyright
  | Too_many_copyrights "string list"
  | Incorrect_format string
  | Incorrect_year string
  | Incorrect_range string

text \<open>The fields of the checker that \<open>is_copyright_correct\<close> reads and writes.\<close>

record checker =
  details :: "detail list"
  src_file :: string

definition append_details :: "detail \<Rightarrow> checker \<Rightarrow> checker" where
  "append_details d self = self\<lparr>details := details self @ [Src_file (src_file self), d]\<rparr>"

text \<open>
  The loop that looks for the Intel copyright: \<open>Break\<close> is the \<open>return False\<close> inside
  the loop, \<open>Continue\<close> carries \<open>intel_copyright\<close> out of the loop. A string is true
  when it is not empty, a match object always.
\<close>

fun for_copyrights :: "string list \<Rightarrow> string list \<Rightarrow> string \<Rightarrow> checker \<Rightarrow> (string \<times> checker) ctl" where
  "for_copyrights [] copyright_strings intel_copyright self = Continue (intel_copyright, self)"
| "for_copyrights (copyright_string # rest) copyright_strings intel_copyright self =
     (if is_intel_copyright copyright_string \<noteq> None then
        (if intel_copyright \<noteq> []
         then Break (intel_copyright, append_details (Too_many_copyrights copyright_strings) self)
         else for_copyrights rest copyright_strings copyright_string self)
      else for_copyrights rest copyright_strings intel_copyright self)"

definition is_copyright_correct :: "string list \<Rightarrow> checker \<Rightarrow> error + bool \<times> checker" where
  "is_copyright_correct tested_strings self =
     (let copyright_strings = get_copyright_strings tested_strings
      in if copyright_strings = [] then Inr (False, append_details Missing_copyright self)
         else
           (case for_copyrights copyright_strings copyright_strings [] self of
              Break (intel_copyright, self') \<Rightarrow> Inr (False, self')
            | Continue (intel_copyright, self') \<Rightarrow>
                if intel_copyright = [] then Inr (True, self')
                else
                  (case get_copyright_year_or_range intel_copyright of
                     Inl e \<Rightarrow> Inl e
                   | Inr None \<Rightarrow>
                       Inr (False, append_details (Incorrect_format intel_copyright) self')
                   | Inr (Some (Single_year y)) \<Rightarrow>
                       if \<not> y = YEAR
                       then Inr (False, append_details (Incorrect_year intel_copyright) self')
                       else Inr (True, self')
                   | Inr (Some (Year_range years)) \<Rightarrow>
                       (case years of
                          [from_year, to_year] \<Rightarrow>
                            if \<not> to_year = YEAR \<or> to_year \<le> from_year
                            then Inr (False,
                                   append_details (Incorrect_range intel_copyright) self')
                            else Inr (True, self')
                        | _ \<Rightarrow> Inl ValueError))))"

section \<open>check\_author.py\<close>

text \<open>The records written to the logger: the level and the message.\<close>

datatype log_record = Info string | Error string

text \<open>The author of the commit that \<open>self.repo.commit(self.revision)\<close> returns.\<close>

record commit =
  author_name :: string
  author_email :: string

definition get_author_info ::
  "string \<Rightarrow> commit \<Rightarrow> log_record list \<Rightarrow> (string \<times> string) \<times> log_record list" where
  "get_author_info revision commit log =
     ((author_name commit, author_email commit),
      log @ [Info (''Getting author information for '' @ revision @ '' revision.''),
             Info (''Author name: '' @ author_name commit),
             Info (''Author email: '' @ author_email commit)])"

definition check_author :: "string \<Rightarrow> log_record list \<Rightarrow> bool \<times> log_record list" where
  "check_author author log =
     (let incorrect_author_names = [''root'', ''mediasdk'']
      in if author \<notin> set incorrect_author_names
         then (True, log @ [Info ''Author name is correct''])
         else (False, log @ [Error ''Author name can not be root, mediasdk.'']))"

definition check_email :: "string \<Rightarrow> log_record list \<Rightarrow> bool \<times> log_record list" where
  "check_email email log =
     (let incorrect_email_endswith = ''@localhost.localdomain''
      in if \<not> endswith email incorrect_email_endswith
         then (True, log @ [Info ''Author email is correct''])
         else (False, log @ [Error ''Author email can not ends in @localhost.localdomain.'']))"

text \<open>
  \<open>check\<close>, given the revision and the commit it names. Both checks run, whatever the first
  one returns.
\<close>

definition check :: "string \<Rightarrow> commit \<Rightarrow> log_record list \<Rightarrow> bool \<times> log_record list" where
  "check revision commit log =
     (let ((author, email), log0) = get_author_info revision commit log;
          (check_author_result, log1) = check_author author log0;
          (check_email_result, log2) = check_email email log1;
          log3 = (if check_author_result \<and> check_email_result
                  then log2 @ [Info ''All checks PASSED'']
                  else log2 @ [Error ''Some checks FAILED''])
      in (check_author_result \<and> check_email_result, log3))"

section \<open>What the matcher accepts\<close>

text \<open>
  \<open>e\<close> is among \<open>ends r s\<close> exactly when \<open>s\<close> is a text that \<open>r\<close> accepts followed by
  \<open>e\<close>; the lemmas below say so for each construct.
\<close>

lemma in_ends_Cls: "e \<in> set (ends (Cls A) s) \<longleftrightarrow> (\<exists>c. c \<in> A \<and> s = c # e)"
  by (cases s) auto

lemma in_ends_Seq: "e \<in> set (ends (Seq r1 r2) s) \<longleftrightarrow> (\<exists>u. u \<in> set (ends r1 s) \<and> e \<in> set (ends r2 u))"
  by auto

lemma in_ends_Opt: "e \<in> set (ends (Opt r) s) \<longleftrightarrow> e \<in> set (ends r s) \<or> e = s"
  by auto

lemma in_ends_Star: "e \<in> set (ends (Star A) s) \<longleftrightarrow> (\<exists>p. s = p @ e \<and> set p \<subseteq> A)"
proof (induction s)
  case Nil
  then show ?case by auto
next
  case (Cons c s)
  show ?case
  proof
    assume "e \<in> set (ends (Star A) (c # s))"
    then consider "c \<in> A" "e \<in> set (ends (Star A) s)" | "e = c # s"
      by (auto split: if_splits)
    then show "\<exists>p. c # s = p @ e \<and> set p \<subseteq> A"
    proof cases
      case 1
      then obtain p where "s = p @ e" "set p \<subseteq> A" using Cons.IH by blast
      with 1 have "c # s = (c # p) @ e \<and> set (c # p) \<subseteq> A" by simp
      then show ?thesis by blast
    next
      case 2
      then have "c # s = [] @ e \<and> set [] \<subseteq> A" by simp
      then show ?thesis by blast
    qed
  next
    assume "\<exists>p. c # s = p @ e \<and> set p \<subseteq> A"
    then obtain p where p: "c # s = p @ e" "set p \<subseteq> A" by blast
    show "e \<in> set (ends (Star A) (c # s))"
    proof (cases p)
      case Nil
      with p show ?thesis by auto
    next
      case (Cons a q)
      with p have "c \<in> A" "s = q @ e" "set q \<subseteq> A" by auto
      then show ?thesis using Cons.IH by auto
    qed
  qed
qed

lemma in_ends_Lazy_star: "e \<in> set (ends (Lazy_star A) s) \<longleftrightarrow> (\<exists>p. s = p @ e \<and> set p \<subseteq> A)"
proof (induction s)
  case Nil
  then show ?case by auto
next
  case (Cons c s)
  show ?case
  proof
    assume "e \<in> set (ends (Lazy_star A) (c # s))"
    then consider "c \<in> A" "e \<in> set (ends (Lazy_star A) s)" | "e = c # s"
      by (auto split: if_splits)
    then show "\<exists>p. c # s = p @ e \<and> set p \<subseteq> A"
    proof cases
      case 1
      then obtain p where "s = p @ e" "set p \<subseteq> A" using Cons.IH by blast
      with 1 have "c # s = (c # p) @ e \<and> set (c # p) \<subseteq> A" by simp
      then show ?thesis by blast
    next
      case 2
      then have "c # s = [] @ e \<and> set [] \<subseteq> A" by simp
      then show ?thesis by blast
    qed
  next
    assume "\<exists>p. c # s = p @ e \<and> set p \<subseteq> A"
    then obtain p where p: "c # s = p @ e" "set p \<subseteq> A" by blast
    show "e \<in> set (ends (Lazy_star A) (c # s))"
    proof (cases p)
      case Nil
      with p show ?thesis by auto
    next
      case (Cons a q)
      with p have "c \<in> A" "s = q @ e" "set q \<subseteq> A" by auto
      then show ?thesis using Cons.IH by auto
    qed
  qed
qed

lemma in_ends_lit: "e \<in> set (ends (lit w) s) \<longleftrightarrow> s = w @ e"
  by (induction w arbitrary: s) (auto simp: in_ends_Cls)

lemma in_ends_rep_Cls:
  "e \<in> set (ends (rep n (Cls A)) s) \<longleftrightarrow> (\<exists>p. s = p @ e \<and> length p = n \<and> set p \<subseteq> A)"
proof (induction n arbitrary: s)
  case 0
  then show ?case by auto
next
  case (Suc n)
  show ?case
  proof
    assume "e \<in> set (ends (rep (Suc n) (Cls A)) s)"
    then obtain c u where "c \<in> A" "s = c # u" "e \<in> set (ends (rep n (Cls A)) u)"
      by (auto simp: in_ends_Cls)
    then obtain p where "u = p @ e" "length p = n" "set p \<subseteq> A" using Suc.IH by blast
    with \<open>c \<in> A\<close> \<open>s = c # u\<close> have "s = (c # p) @ e \<and> length (c # p) = Suc n \<and> set (c # p) \<subseteq> A"
      by simp
    then show "\<exists>p. s = p @ e \<and> length p = Suc n \<and> set p \<subseteq> A" by blast
  next
    assume "\<exists>p. s = p @ e \<and> length p = Suc n \<and> set p \<subseteq> A"
    then obtain p where p: "s = p @ e" "length p = Suc n" "set p \<subseteq> A" by blast
    then obtain c q where "p = c # q" by (cases p) auto
    with p have "c \<in> A" "s = c # (q @ e)" "length q = n" "set q \<subseteq> A" by auto
    then have "e \<in> set (ends (rep n (Cls A)) (q @ e))" using Suc.IH by blast
    with \<open>c \<in> A\<close> \<open>s = c # (q @ e)\<close> show "e \<in> set (ends (rep (Suc n) (Cls A)) s)"
      by (auto simp: in_ends_Cls)
  qed
qed

lemma in_ends_seqs_Nil: "e \<in> set (ends (seqs []) s) \<longleftrightarrow> e = s"
  by auto

lemma in_ends_seqs_Cons:
  "e \<in> set (ends (seqs (r # rs)) s) \<longleftrightarrow> (\<exists>u. u \<in> set (ends r s) \<and> e \<in> set (ends (seqs rs) u))"
  by auto

lemma ends_suffix: "e \<in> set (ends r s) \<Longrightarrow> suffix e s"
proof (induction r arbitrary: s e)
  case Eps
  then show ?case by simp
next
  case (Cls A)
  then show ?case by (auto simp: in_ends_Cls suffix_def)
next
  case (Seq r1 r2)
  then show ?case by (meson in_ends_Seq suffix_order.trans)
next
  case (Opt r)
  then show ?case by (auto simp: in_ends_Opt)
next
  case (Star A)
  then show ?case by (auto simp: in_ends_Star suffix_def)
next
  case (Lazy_star A)
  then show ?case by (auto simp: in_ends_Lazy_star suffix_def)
qed

lemma re_search_None: "re_search r s = None \<longleftrightarrow> (\<forall>u. suffix u s \<longrightarrow> ends r u = [])"
proof (induction s)
  case Nil
  then show ?case by (auto split: list.splits)
next
  case (Cons c s)
  then show ?case by (auto simp: suffix_Cons split: list.splits)
qed

lemma re_search_Some:
  assumes "re_search r s = Some g"
  shows "\<exists>pre e. s = pre @ g @ e \<and> e \<in> set (ends r (g @ e))"
  using assms
proof (induction s)
  case Nil
  then have "g = []" "ends r [] \<noteq> []" by (auto split: list.splits)
  moreover have "e = []" if "e \<in> set (ends r [])" for e using ends_suffix [OF that] by simp
  ultimately have "[] \<in> set (ends r ([] @ []))" by (cases "ends r []") auto
  with \<open>g = []\<close> show ?case by auto
next
  case (Cons c s)
  show ?case
  proof (cases "ends r (c # s)")
    case Nil
    with Cons.prems have "re_search r s = Some g" by simp
    then obtain pre e where "s = pre @ g @ e" "e \<in> set (ends r (g @ e))" using Cons.IH by blast
    then have "c # s = (c # pre) @ g @ e \<and> e \<in> set (ends r (g @ e))" by simp
    then show ?thesis by blast
  next
    case (Cons e es)
    with Cons.prems have g: "g = take (length (c # s) - length e) (c # s)" by simp
    have "e \<in> set (ends r (c # s))" using Cons by simp
    then have "suffix e (c # s)" by (rule ends_suffix)
    then obtain p where p: "c # s = p @ e" by (auto simp: suffix_def)
    then have "length (c # s) - length e = length p"
      by (metis add_diff_cancel_right' length_append)
    with g p have "g = p" by (metis append_eq_conv_conj)
    with p \<open>e \<in> set (ends r (c # s))\<close> have "c # s = [] @ g @ e \<and> e \<in> set (ends r (g @ e))" by simp
    then show ?thesis by blast
  qed
qed

lemma re_search_not_None:
  "re_search r s \<noteq> None \<longleftrightarrow> (\<exists>pre u e. s = pre @ u \<and> e \<in> set (ends r u))"
proof -
  have "re_search r s \<noteq> None \<longleftrightarrow> (\<exists>u. suffix u s \<and> ends r u \<noteq> [])"
    by (simp add: re_search_None)
  also have "\<dots> \<longleftrightarrow> (\<exists>pre u e. s = pre @ u \<and> e \<in> set (ends r u))"
    by (metis suffix_def empty_iff empty_set ex_in_conv set_empty)
  finally show ?thesis .
qed

lemmas in_ends = in_ends_Cls in_ends_Opt in_ends_Star in_ends_Lazy_star in_ends_lit
  in_ends_rep_Cls in_ends_seqs_Nil in_ends_seqs_Cons

lemma ends_intel_pattern:
  "e \<in> set (ends intel_pattern u) \<longleftrightarrow>
   (\<exists>p0 w1 c w2 d w3 w4 p1.
      u = p0 @ ''Copyright'' @ w1 @ ''('' @ [c] @ '')'' @ w2 @ d @ w3 @ ''Intel'' @ w4 @
          ''Corporation'' @ p1 @ e \<and>
      set p0 \<subseteq> dot \<and> set w1 \<subseteq> whitespace \<and> c \<in> {CHR ''c'', CHR ''C''} \<and>
      set w2 \<subseteq> whitespace \<and> set d \<subseteq> digit \<union> {CHR '' '', CHR ''-''} \<and>
      set w3 \<subseteq> whitespace \<and> set w4 \<subseteq> whitespace \<and> set p1 \<subseteq> dot)"
  unfolding intel_pattern_def in_ends
  apply (rule iffI)
   apply (elim exE conjE)
   apply (intro exI conjI)
            apply (simp; fail)
           apply assumption+
  apply (elim exE conjE)
  apply (intro exI conjI)
  apply (assumption | simp)+
  done

lemma in_ends_Opt_Cls:
  "e \<in> set (ends (Opt (Cls A)) s) \<longleftrightarrow>
   (\<exists>w. s = w @ e \<and> (w = [] \<or> (\<exists>x. x \<in> A \<and> w = [x])))"
  by (auto simp: in_ends_Opt in_ends_Cls)

lemma ends_copyright_pattern:
  "e \<in> set (ends copyright_pattern u) \<longleftrightarrow>
   (\<exists>p0 c w mid d p1.
      u = p0 @ [c] @ ''opyright'' @ w @ mid @ d @ p1 @ e \<and>
      set p0 \<subseteq> dot \<and> c \<in> {CHR ''C'', CHR ''c''} \<and>
      (w = [] \<or> (\<exists>x. x \<in> whitespace \<and> w = [x])) \<and> set mid \<subseteq> dot \<and>
      length d = 4 \<and> set d \<subseteq> digit \<and> set p1 \<subseteq> dot)"
  unfolding copyright_pattern_def in_ends_Opt_Cls in_ends_Cls in_ends_Star in_ends_lit
    in_ends_rep_Cls in_ends_seqs_Nil in_ends_seqs_Cons
  apply (rule iffI)
   apply (elim exE conjE)
   apply (intro exI conjI)
          apply (simp; fail)
         apply assumption+
  apply (elim exE conjE)
  apply (intro exI conjI)
             apply (assumption | simp)+
  done

section \<open>What the three patterns accept\<close>

lemma ends_year_prefix:
  "v \<in> set (ends (seqs [rep 4 (Cls digit), Opt (Cls {CHR '' ''}), Cls {CHR ''-''},
                         Opt (Cls {CHR '' ''})]) u) \<longleftrightarrow>
   (\<exists>d1 s1 s2.
      u = d1 @ s1 @ ''-'' @ s2 @ v \<and> length d1 = 4 \<and> set d1 \<subseteq> digit \<and>
      (s1 = [] \<or> s1 = '' '') \<and> (s2 = [] \<or> s2 = '' ''))"
  unfolding in_ends_Opt_Cls in_ends_Cls in_ends_rep_Cls in_ends_seqs_Nil in_ends_seqs_Cons
  apply (rule iffI)
   apply (elim exE conjE)
   apply (intro exI conjI)
       apply (simp; fail)
      apply (assumption | simp)+
  apply (elim exE conjE)
  apply (intro exI conjI)
         apply (assumption | simp)+
  done

lemma ends_year_pattern:
  "e \<in> set (ends year_pattern u) \<longleftrightarrow>
   (\<exists>d. u = d @ e \<and> length d = 4 \<and> set d \<subseteq> digit) \<or>
   (\<exists>d1 s1 s2 d2.
      u = d1 @ s1 @ ''-'' @ s2 @ d2 @ e \<and> length d1 = 4 \<and> set d1 \<subseteq> digit \<and>
      (s1 = [] \<or> s1 = '' '') \<and> (s2 = [] \<or> s2 = '' '') \<and>
      length d2 = 4 \<and> set d2 \<subseteq> digit)"
  (is "?L \<longleftrightarrow> ?A \<or> ?B")
proof -
  have "?L \<longleftrightarrow> (\<exists>v. (v \<in> set (ends (seqs [rep 4 (Cls digit), Opt (Cls {CHR '' ''}),
        Cls {CHR ''-''}, Opt (Cls {CHR '' ''})]) u) \<or> v = u) \<and>
        (\<exists>d. v = d @ e \<and> length d = 4 \<and> set d \<subseteq> digit))"
    unfolding year_pattern_def
    by (simp only: in_ends_seqs_Cons [of e "Opt _"] in_ends_Opt in_ends_seqs_Cons [of e "rep _ _"]
        in_ends_rep_Cls in_ends_seqs_Nil) auto
  also have "\<dots> \<longleftrightarrow> ?A \<or> ?B"
    unfolding ends_year_prefix by blast
  finally show ?thesis .
qed

lemma copyright_string_iff:
  "re_search copyright_pattern s \<noteq> None \<longleftrightarrow>
   (\<exists>pre c w mid d post.
      s = pre @ [c] @ ''opyright'' @ w @ mid @ d @ post \<and> c \<in> {CHR ''C'', CHR ''c''} \<and>
      (w = [] \<or> (\<exists>x. x \<in> whitespace \<and> w = [x])) \<and> set mid \<subseteq> dot \<and>
      length d = 4 \<and> set d \<subseteq> digit)"
  (is "?L \<longleftrightarrow> ?R")
proof
  assume ?L
  then obtain pre u e where s: "s = pre @ u" and e: "e \<in> set (ends copyright_pattern u)"
    unfolding re_search_not_None by blast
  from e obtain p0 c w mid d p1 where
    u: "u = p0 @ [c] @ ''opyright'' @ w @ mid @ d @ p1 @ e"
    and side: "c \<in> {CHR ''C'', CHR ''c''}" "w = [] \<or> (\<exists>x. x \<in> whitespace \<and> w = [x])"
      "set mid \<subseteq> dot" "length d = 4" "set d \<subseteq> digit"
    unfolding ends_copyright_pattern by blast
  from s u have "s = (pre @ p0) @ [c] @ ''opyright'' @ w @ mid @ d @ (p1 @ e)"
    by simp
  with side show ?R by blast
next
  assume ?R
  then obtain pre c w mid d post where
    s: "s = pre @ [c] @ ''opyright'' @ w @ mid @ d @ post"
    and side: "c \<in> {CHR ''C'', CHR ''c''}" "w = [] \<or> (\<exists>x. x \<in> whitespace \<and> w = [x])"
      "set mid \<subseteq> dot" "length d = 4" "set d \<subseteq> digit"
    by blast
  let ?u = "[] @ [c] @ ''opyright'' @ w @ mid @ d @ [] @ post"
  have "post \<in> set (ends copyright_pattern ?u)"
    unfolding ends_copyright_pattern using side by (intro exI conjI) (rule refl, simp_all)
  moreover have "s = pre @ ?u" using s by simp
  ultimately show ?L
    unfolding re_search_not_None by blast
qed

section \<open>Parsing the years never fails\<close>

lemma digit_not_whitespace: "c \<in> digit \<Longrightarrow> c \<notin> whitespace"
  by (auto simp: digit_def whitespace_def)

lemma digit_not_hyphen: "c \<in> digit \<Longrightarrow> c \<noteq> CHR ''-''"
  by (auto simp: digit_def)

lemma space_whitespace: "CHR '' '' \<in> whitespace"
  by (simp add: whitespace_def)

lemma strip_padded:
  assumes "d \<noteq> []" "hd d \<notin> whitespace" "last d \<notin> whitespace"
    and "set a \<subseteq> whitespace" "set b \<subseteq> whitespace"
  shows "strip (a @ d @ b) = d"
proof -
  from assms(1) obtain x d' where d: "d = x # d'" by (cases d) auto
  from assms(1) obtain d'' y where d2: "d = d'' @ [y]" by (cases d rule: rev_cases) auto
  have "dropWhile (\<lambda>c. c \<in> whitespace) (a @ d @ b) = dropWhile (\<lambda>c. c \<in> whitespace) (d @ b)"
    using assms(4) by (intro dropWhile_append2) auto
  also have "\<dots> = d @ b" using assms(2) d by simp
  finally have 1: "dropWhile (\<lambda>c. c \<in> whitespace) (a @ d @ b) = d @ b" .
  have "dropWhile (\<lambda>c. c \<in> whitespace) (rev (d @ b))
      = dropWhile (\<lambda>c. c \<in> whitespace) (rev d)"
    using assms(5) by (simp only: rev_append, intro dropWhile_append2) auto
  also have "\<dots> = rev d" using assms(3) d2 by simp
  finally show ?thesis by (simp add: strip_def 1)
qed

lemma py_int_digits:
  assumes "d \<noteq> []" "set d \<subseteq> digit" "set a \<subseteq> whitespace" "set b \<subseteq> whitespace"
  shows "py_int (a @ d @ b) = Inr (decimal d)"
proof -
  have "hd d \<notin> whitespace" "last d \<notin> whitespace"
    using assms(1,2) by (auto intro!: digit_not_whitespace)
  then have "strip (a @ d @ b) = d" using assms by (intro strip_padded)
  then show ?thesis using assms(1,2) by (simp add: py_int_def)
qed

lemma split_no_sep: "sep \<notin> set a \<Longrightarrow> split sep a = [a]"
  by (induction a) auto

lemma split_at_sep: "sep \<notin> set a \<Longrightarrow> split sep (a @ sep # b) = a # split sep b"
  by (induction a) auto

lemma year_match_form:
  assumes "re_search year_pattern s = Some g"
  shows "(length g = 4 \<and> set g \<subseteq> digit) \<or>
    (\<exists>d1 s1 s2 d2. g = d1 @ s1 @ ''-'' @ s2 @ d2 \<and> length d1 = 4 \<and> set d1 \<subseteq> digit \<and>
       (s1 = [] \<or> s1 = '' '') \<and> (s2 = [] \<or> s2 = '' '') \<and> length d2 = 4 \<and> set d2 \<subseteq> digit)"
proof -
  from re_search_Some [OF assms] obtain pre e where
    "s = pre @ g @ e" and e: "e \<in> set (ends year_pattern (g @ e))" by blast
  from e show ?thesis unfolding ends_year_pattern by auto
qed

lemma year_of_single:
  assumes "length g = 4" "set g \<subseteq> digit"
  shows "ints (split (CHR ''-'') g) = Inr [decimal g]"
proof -
  have "CHR ''-'' \<notin> set g" using assms(2) digit_not_hyphen by blast
  then have "split (CHR ''-'') g = [g]" by (rule split_no_sep)
  moreover have "py_int ([] @ g @ []) = Inr (decimal g)"
    using assms by (intro py_int_digits) auto
  ultimately show ?thesis by simp
qed

lemma years_of_range:
  assumes "length d1 = 4" "set d1 \<subseteq> digit" "s1 = [] \<or> s1 = '' ''" "s2 = [] \<or> s2 = '' ''"
    "length d2 = 4" "set d2 \<subseteq> digit"
  shows "ints (split (CHR ''-'') (d1 @ s1 @ ''-'' @ s2 @ d2)) = Inr [decimal d1, decimal d2]"
proof -
  have ws: "set s1 \<subseteq> whitespace" "set s2 \<subseteq> whitespace"
    using assms(3,4) space_whitespace by auto
  have "CHR ''-'' \<notin> set (d1 @ s1)" "CHR ''-'' \<notin> set (s2 @ d2)"
    using assms(2,3,4,6) digit_not_hyphen by auto
  then have "split (CHR ''-'') ((d1 @ s1) @ CHR ''-'' # (s2 @ d2)) = [d1 @ s1, s2 @ d2]"
    by (simp add: split_at_sep split_no_sep del: append_assoc)
  moreover have "py_int ([] @ d1 @ s1) = Inr (decimal d1)"
    using assms(1,2) ws by (intro py_int_digits) auto
  moreover have "py_int (s2 @ d2 @ []) = Inr (decimal d2)"
    using assms(5,6) ws by (intro py_int_digits) auto
  ultimately show ?thesis by simp
qed

lemma year_or_range_cases:
  "(re_search year_pattern s = None \<and> get_copyright_year_or_range s = Inr None) \<or>
   (\<exists>y. get_copyright_year_or_range s = Inr (Some (Single_year y))) \<or>
   (\<exists>a b. get_copyright_year_or_range s = Inr (Some (Year_range [a, b])))"
proof (cases "re_search year_pattern s")
  case None
  then show ?thesis by (simp add: get_copyright_year_or_range_def)
next
  case (Some g)
  from year_match_form [OF Some] consider
    (single) "length g = 4" "set g \<subseteq> digit"
  | (range) d1 s1 s2 d2 where "g = d1 @ s1 @ ''-'' @ s2 @ d2" "length d1 = 4" "set d1 \<subseteq> digit"
      "s1 = [] \<or> s1 = '' ''" "s2 = [] \<or> s2 = '' ''" "length d2 = 4" "set d2 \<subseteq> digit"
    by blast
  then show ?thesis
  proof cases
    case single
    then have "ints (split (CHR ''-'') g) = Inr [decimal g]" by (rule year_of_single)
    then show ?thesis using Some by (simp add: get_copyright_year_or_range_def)
  next
    case range
    have "ints (split (CHR ''-'') g) = Inr [decimal d1, decimal d2]"
      unfolding range(1) by (rule years_of_range [OF range(2-7)])
    then show ?thesis using Some by (simp add: get_copyright_year_or_range_def)
  qed
qed

lemma copyright_string_has_year:
  assumes "re_search copyright_pattern s \<noteq> None"
  shows "re_search year_pattern s \<noteq> None"
proof -
  from assms obtain pre u e where s: "s = pre @ u" and "e \<in> set (ends copyright_pattern u)"
    unfolding re_search_not_None by blast
  then obtain p0 c w mid d p1 where
    u: "u = p0 @ [c] @ ''opyright'' @ w @ mid @ d @ p1 @ e" and d: "length d = 4" "set d \<subseteq> digit"
    unfolding ends_copyright_pattern by blast
  have "p1 @ e \<in> set (ends year_pattern (d @ p1 @ e))"
    unfolding ends_year_pattern using d by blast
  moreover have "s = (pre @ p0 @ [c] @ ''opyright'' @ w @ mid) @ (d @ p1 @ e)"
    using s u by simp
  ultimately show ?thesis unfolding re_search_not_None by blast
qed

section \<open>The first match of the year pattern\<close>

lemma re_search_first:
  assumes "re_search r s = Some g"
  shows "\<exists>pre e es. s = pre @ g @ e \<and> ends r (g @ e) = e # es \<and>
    (\<forall>p q. pre = p @ q \<and> q \<noteq> [] \<longrightarrow> ends r (q @ g @ e) = [])"
  using assms
proof (induction s)
  case Nil
  then obtain e es where ends: "ends r [] = e # es" and g: "g = []"
    by (auto split: list.splits)
  then have "e \<in> set (ends r [])" by simp
  then have "e = []" using ends_suffix by fastforce
  with ends g have "[] = [] @ g @ e \<and> ends r (g @ e) = e # es \<and>
      (\<forall>p q. [] = p @ q \<and> q \<noteq> [] \<longrightarrow> ends r (q @ g @ e) = [])"
    by simp
  then show ?case by blast
next
  case (Cons c s)
  show ?case
  proof (cases "ends r (c # s)")
    case Nil
    with Cons.prems have "re_search r s = Some g" by simp
    then obtain pre e es where s: "s = pre @ g @ e" and ends: "ends r (g @ e) = e # es"
      and first: "\<forall>p q. pre = p @ q \<and> q \<noteq> [] \<longrightarrow> ends r (q @ g @ e) = []"
      using Cons.IH by blast
    have "ends r (q @ g @ e) = []" if "c # pre = p @ q" "q \<noteq> []" for p q
    proof (cases p)
      case Nil
      with that s have "q @ g @ e = c # s" by simp
      then show ?thesis using \<open>ends r (c # s) = []\<close> by simp
    next
      case (Cons x p')
      with that have "pre = p' @ q" by simp
      with first that show ?thesis by blast
    qed
    with s ends have "c # s = (c # pre) @ g @ e \<and> ends r (g @ e) = e # es \<and>
        (\<forall>p q. c # pre = p @ q \<and> q \<noteq> [] \<longrightarrow> ends r (q @ g @ e) = [])"
      by simp
    then show ?thesis by blast
  next
    case (Cons e es)
    with Cons.prems have g: "g = take (length (c # s) - length e) (c # s)" by simp
    have "e \<in> set (ends r (c # s))" using Cons by simp
    then have "suffix e (c # s)" by (rule ends_suffix)
    then obtain p where p: "c # s = p @ e" by (auto simp: suffix_def)
    then have "length (c # s) - length e = length p"
      by (metis add_diff_cancel_right' length_append)
    with g p have "g = p" by (metis append_eq_conv_conj)
    with p Cons have "c # s = [] @ g @ e \<and> ends r (g @ e) = e # es \<and>
        (\<forall>p q. [] = p @ q \<and> q \<noteq> [] \<longrightarrow> ends r (q @ g @ e) = [])"
      by simp
    then show ?thesis by blast
  qed
qed

lemma re_search_firstI:
  assumes "\<forall>p q. pre = p @ q \<and> q \<noteq> [] \<longrightarrow> ends r (q @ g @ e) = []"
    and "ends r (g @ e) = e # es"
  shows "re_search r (pre @ g @ e) = Some g"
  using assms(1)
proof (induction pre)
  case Nil
  show ?case
  proof (cases "g @ e")
    case Nil
    with assms(2) show ?thesis by simp
  next
    case (Cons c s)
    with assms(2) have "re_search r (g @ e) = Some (take (length (g @ e) - length e) (g @ e))"
      by simp
    then show ?thesis by simp
  qed
next
  case (Cons c pre)
  then have "ends r ((c # pre) @ g @ e) = []" by blast
  moreover have "\<forall>p q. pre = p @ q \<and> q \<noteq> [] \<longrightarrow> ends r (q @ g @ e) = []"
  proof (intro allI impI)
    fix p q assume "pre = p @ q \<and> q \<noteq> []"
    then have "c # pre = (c # p) @ q \<and> q \<noteq> []" by simp
    with Cons.prems show "ends r (q @ g @ e) = []" by blast
  qed
  ultimately show ?case using Cons.IH by simp
qed

lemma year_pattern_none:
  "ends year_pattern u = [] \<longleftrightarrow> \<not> (\<exists>m r. u = m @ r \<and> length m = 4 \<and> set m \<subseteq> digit)"
proof -
  have "ends year_pattern u \<noteq> [] \<longleftrightarrow> (\<exists>e. e \<in> set (ends year_pattern u))"
    by (cases "ends year_pattern u") auto
  also have "\<dots> \<longleftrightarrow> (\<exists>m r. u = m @ r \<and> length m = 4 \<and> set m \<subseteq> digit)"
    unfolding ends_year_pattern by blast
  finally show ?thesis by blast
qed

lemma space_not_digit: "CHR '' '' \<notin> digit"
  by (simp add: digit_def)

lemma range_form_unique:
  assumes "d1 @ s1 @ ''-'' @ s2 @ d2 @ e = d1' @ s1' @ ''-'' @ s2' @ d2' @ e'"
    and "length d1 = 4" "length d1' = 4"
    and "s1 = [] \<or> s1 = '' ''" "s1' = [] \<or> s1' = '' ''"
    and "s2 = [] \<or> s2 = '' ''" "s2' = [] \<or> s2' = '' ''"
    and "length d2 = 4" "set d2 \<subseteq> digit" "length d2' = 4" "set d2' \<subseteq> digit"
  shows "d1 = d1' \<and> s1 = s1' \<and> s2 = s2' \<and> d2 = d2' \<and> e = e'"
proof -
  from assms(1-3) have d1: "d1 = d1'"
    and 1: "s1 @ ''-'' @ s2 @ d2 @ e = s1' @ ''-'' @ s2' @ d2' @ e'"
    by simp_all
  from 1 assms(4,5) have s1: "s1 = s1'" and 2: "s2 @ d2 @ e = s2' @ d2' @ e'"
    by auto
  from assms(8,9) obtain x xs where x: "d2 = x # xs" "x \<noteq> CHR '' ''"
    using space_not_digit by (cases d2) auto
  from assms(10,11) obtain y ys where y: "d2' = y # ys" "y \<noteq> CHR '' ''"
    using space_not_digit by (cases d2') auto
  from 2 assms(6,7) x y have s2: "s2 = s2'" and 3: "d2 @ e = d2' @ e'"
    by auto
  from 3 assms(8,10) have "d2 = d2'" "e = e'" by simp_all
  with d1 s1 s2 show ?thesis by simp
qed

lemma ends_year_pattern_append:
  "ends year_pattern u =
     concat (map (ends (seqs [rep 4 (Cls digit)]))
       (ends (seqs [rep 4 (Cls digit), Opt (Cls {CHR '' ''}), Cls {CHR ''-''},
                    Opt (Cls {CHR '' ''})]) u))
     @ ends (seqs [rep 4 (Cls digit)]) u"
  by (simp add: year_pattern_def)

lemma in_range_ends:
  "e \<in> set (concat (map (ends (seqs [rep 4 (Cls digit)]))
       (ends (seqs [rep 4 (Cls digit), Opt (Cls {CHR '' ''}), Cls {CHR ''-''},
                    Opt (Cls {CHR '' ''})]) u))) \<longleftrightarrow>
   (\<exists>d1 s1 s2 d2.
      u = d1 @ s1 @ ''-'' @ s2 @ d2 @ e \<and> length d1 = 4 \<and> set d1 \<subseteq> digit \<and>
      (s1 = [] \<or> s1 = '' '') \<and> (s2 = [] \<or> s2 = '' '') \<and>
      length d2 = 4 \<and> set d2 \<subseteq> digit)"
  (is "?L \<longleftrightarrow> ?R")
proof -
  have "?L \<longleftrightarrow> (\<exists>v. v \<in> set (ends (seqs [rep 4 (Cls digit), Opt (Cls {CHR '' ''}),
        Cls {CHR ''-''}, Opt (Cls {CHR '' ''})]) u) \<and>
        (\<exists>d. v = d @ e \<and> length d = 4 \<and> set d \<subseteq> digit))"
    by (simp only: set_concat set_map UN_iff bex_simps image_iff in_ends_seqs_Cons [of e "rep _ _"]
        in_ends_rep_Cls in_ends_seqs_Nil) auto
  also have "\<dots> \<longleftrightarrow> ?R"
    unfolding ends_year_prefix by blast
  finally show ?thesis .
qed

lemma in_single_ends:
  "e \<in> set (ends (seqs [rep 4 (Cls digit)]) u) \<longleftrightarrow> (\<exists>d. u = d @ e \<and> length d = 4 \<and> set d \<subseteq> digit)"
  by (simp only: in_ends_seqs_Cons in_ends_rep_Cls in_ends_seqs_Nil) auto

lemma year_pattern_first:
  assumes "ends year_pattern u = e # es"
  shows "(\<exists>d1 s1 s2 d2.
      u = d1 @ s1 @ ''-'' @ s2 @ d2 @ e \<and> length d1 = 4 \<and> set d1 \<subseteq> digit \<and>
      (s1 = [] \<or> s1 = '' '') \<and> (s2 = [] \<or> s2 = '' '') \<and>
      length d2 = 4 \<and> set d2 \<subseteq> digit) \<or>
    ((\<exists>d. u = d @ e \<and> length d = 4 \<and> set d \<subseteq> digit) \<and>
     \<not> (\<exists>d1 s1 s2 d2 e'.
      u = d1 @ s1 @ ''-'' @ s2 @ d2 @ e' \<and> length d1 = 4 \<and> set d1 \<subseteq> digit \<and>
      (s1 = [] \<or> s1 = '' '') \<and> (s2 = [] \<or> s2 = '' '') \<and>
      length d2 = 4 \<and> set d2 \<subseteq> digit))"
proof -
  let ?range = "concat (map (ends (seqs [rep 4 (Cls digit)]))
       (ends (seqs [rep 4 (Cls digit), Opt (Cls {CHR '' ''}), Cls {CHR ''-''},
                    Opt (Cls {CHR '' ''})]) u))"
  let ?single = "ends (seqs [rep 4 (Cls digit)]) u"
  from assms have split: "?range @ ?single = e # es"
    by (simp only: ends_year_pattern_append)
  show ?thesis
  proof (cases ?range)
    case Nil
    from split have "?single = e # es" unfolding Nil by (simp only: append_Nil)
    then have "e \<in> set ?single" by (simp only: list.set_intros(1))
    then have "\<exists>d. u = d @ e \<and> length d = 4 \<and> set d \<subseteq> digit"
      by (simp only: in_single_ends)
    moreover have "\<not> (\<exists>e'. e' \<in> set ?range)" unfolding Nil by simp
    then have "\<not> (\<exists>d1 s1 s2 d2 e'.
      u = d1 @ s1 @ ''-'' @ s2 @ d2 @ e' \<and> length d1 = 4 \<and> set d1 \<subseteq> digit \<and>
      (s1 = [] \<or> s1 = '' '') \<and> (s2 = [] \<or> s2 = '' '') \<and>
      length d2 = 4 \<and> set d2 \<subseteq> digit)"
      unfolding in_range_ends by blast
    ultimately show ?thesis by blast
  next
    case (Cons x xs)
    from split have "x = e" unfolding Cons by (simp only: append_Cons list.inject)
    then have "e \<in> set ?range" unfolding Cons by simp
    then show ?thesis unfolding in_range_ends by blast
  qed
qed

lemma first_end_range:
  assumes ends: "ends year_pattern u = e0 # es"
    and u: "u = d1 @ s1 @ ''-'' @ s2 @ d2 @ e"
    and c: "length d1 = 4" "set d1 \<subseteq> digit" "s1 = [] \<or> s1 = '' ''" "s2 = [] \<or> s2 = '' ''"
      "length d2 = 4" "set d2 \<subseteq> digit"
  shows "e0 = e"
  using year_pattern_first [OF ends]
proof
  assume "\<exists>d1 s1 s2 d2.
      u = d1 @ s1 @ ''-'' @ s2 @ d2 @ e0 \<and> length d1 = 4 \<and> set d1 \<subseteq> digit \<and>
      (s1 = [] \<or> s1 = '' '') \<and> (s2 = [] \<or> s2 = '' '') \<and>
      length d2 = 4 \<and> set d2 \<subseteq> digit"
  then obtain d1' s1' s2' d2' where u': "u = d1' @ s1' @ ''-'' @ s2' @ d2' @ e0"
    and c': "length d1' = 4" "s1' = [] \<or> s1' = '' ''" "s2' = [] \<or> s2' = '' ''"
      "length d2' = 4" "set d2' \<subseteq> digit"
    by blast
  from u' [unfolded u] have "d1' @ s1' @ ''-'' @ s2' @ d2' @ e0 = d1 @ s1 @ ''-'' @ s2 @ d2 @ e"
    by (rule sym)
  from range_form_unique [OF this c'(1) c(1) c'(2) c(3) c'(3) c(4) c'(4,5) c(5,6)]
  show ?thesis by (elim conjE)
next
  assume "(\<exists>d. u = d @ e0 \<and> length d = 4 \<and> set d \<subseteq> digit) \<and>
      \<not> (\<exists>d1 s1 s2 d2 e'.
        u = d1 @ s1 @ ''-'' @ s2 @ d2 @ e' \<and> length d1 = 4 \<and> set d1 \<subseteq> digit \<and>
        (s1 = [] \<or> s1 = '' '') \<and> (s2 = [] \<or> s2 = '' '') \<and>
        length d2 = 4 \<and> set d2 \<subseteq> digit)"
  then have no: "\<not> (\<exists>d1 s1 s2 d2 e'.
        u = d1 @ s1 @ ''-'' @ s2 @ d2 @ e' \<and> length d1 = 4 \<and> set d1 \<subseteq> digit \<and>
        (s1 = [] \<or> s1 = '' '') \<and> (s2 = [] \<or> s2 = '' '') \<and>
        length d2 = 4 \<and> set d2 \<subseteq> digit)"
    by (rule conjunct2)
  have "\<exists>d1 s1 s2 d2 e'.
        u = d1 @ s1 @ ''-'' @ s2 @ d2 @ e' \<and> length d1 = 4 \<and> set d1 \<subseteq> digit \<and>
        (s1 = [] \<or> s1 = '' '') \<and> (s2 = [] \<or> s2 = '' '') \<and>
        length d2 = 4 \<and> set d2 \<subseteq> digit"
    by (intro exI conjI) (rule u c)+
  with no show ?thesis by (rule notE)
qed

lemma first_end_single:
  assumes ends: "ends year_pattern u = e0 # es"
    and u: "u = d @ e"
    and c: "length d = 4" "set d \<subseteq> digit"
    and no: "\<not> (\<exists>s1 s2 d2 r. e = s1 @ ''-'' @ s2 @ d2 @ r \<and>
          (s1 = [] \<or> s1 = '' '') \<and> (s2 = [] \<or> s2 = '' '') \<and>
          length d2 = 4 \<and> set d2 \<subseteq> digit)"
  shows "e0 = e"
  using year_pattern_first [OF ends]
proof
  assume "\<exists>d1 s1 s2 d2.
      u = d1 @ s1 @ ''-'' @ s2 @ d2 @ e0 \<and> length d1 = 4 \<and> set d1 \<subseteq> digit \<and>
      (s1 = [] \<or> s1 = '' '') \<and> (s2 = [] \<or> s2 = '' '') \<and>
      length d2 = 4 \<and> set d2 \<subseteq> digit"
  then obtain d1 s1 s2 d2 where u': "u = d1 @ s1 @ ''-'' @ s2 @ d2 @ e0"
    and c': "length d1 = 4" "s1 = [] \<or> s1 = '' ''" "s2 = [] \<or> s2 = '' ''"
      "length d2 = 4" "set d2 \<subseteq> digit"
    by blast
  from u' [unfolded u] have "d @ e = d1 @ (s1 @ ''-'' @ s2 @ d2 @ e0)" .
  with c(1) c'(1) have "e = s1 @ ''-'' @ s2 @ d2 @ e0" by simp
  with c' have "\<exists>s1 s2 d2 r. e = s1 @ ''-'' @ s2 @ d2 @ r \<and>
          (s1 = [] \<or> s1 = '' '') \<and> (s2 = [] \<or> s2 = '' '') \<and>
          length d2 = 4 \<and> set d2 \<subseteq> digit"
    by (intro exI conjI)
  with no show ?thesis by (rule notE)
next
  assume "(\<exists>d. u = d @ e0 \<and> length d = 4 \<and> set d \<subseteq> digit) \<and>
      \<not> (\<exists>d1 s1 s2 d2 e'.
        u = d1 @ s1 @ ''-'' @ s2 @ d2 @ e' \<and> length d1 = 4 \<and> set d1 \<subseteq> digit \<and>
        (s1 = [] \<or> s1 = '' '') \<and> (s2 = [] \<or> s2 = '' '') \<and>
        length d2 = 4 \<and> set d2 \<subseteq> digit)"
  then obtain d' where "u = d' @ e0" "length d' = 4" by blast
  from this(1) [unfolded u] c(1) \<open>length d' = 4\<close> show ?thesis by simp
qed

lemma year_search_found:
  assumes "re_search year_pattern n = Some g"
  shows "\<exists>pre e. n = pre @ g @ e \<and>
      (\<forall>p q. pre = p @ q \<and> q \<noteq> [] \<longrightarrow>
         \<not> (\<exists>m r. q @ g @ e = m @ r \<and> length m = 4 \<and> set m \<subseteq> digit)) \<and>
      ((\<exists>d1 s1 s2 d2. g = d1 @ s1 @ ''-'' @ s2 @ d2 \<and> length d1 = 4 \<and> set d1 \<subseteq> digit \<and>
          (s1 = [] \<or> s1 = '' '') \<and> (s2 = [] \<or> s2 = '' '') \<and>
          length d2 = 4 \<and> set d2 \<subseteq> digit) \<or>
       (length g = 4 \<and> set g \<subseteq> digit \<and>
        \<not> (\<exists>s1 s2 d2 r. e = s1 @ ''-'' @ s2 @ d2 @ r \<and>
          (s1 = [] \<or> s1 = '' '') \<and> (s2 = [] \<or> s2 = '' '') \<and>
          length d2 = 4 \<and> set d2 \<subseteq> digit)))"
proof -
  from re_search_first [OF assms] obtain pre e es where
    n: "n = pre @ g @ e" and ends: "ends year_pattern (g @ e) = e # es"
    and first: "\<forall>p q. pre = p @ q \<and> q \<noteq> [] \<longrightarrow> ends year_pattern (q @ g @ e) = []"
    by blast
  from first have first': "\<forall>p q. pre = p @ q \<and> q \<noteq> [] \<longrightarrow>
         \<not> (\<exists>m r. q @ g @ e = m @ r \<and> length m = 4 \<and> set m \<subseteq> digit)"
    unfolding year_pattern_none .
  from year_pattern_first [OF ends]
  have "(\<exists>d1 s1 s2 d2. g = d1 @ s1 @ ''-'' @ s2 @ d2 \<and> length d1 = 4 \<and> set d1 \<subseteq> digit \<and>
          (s1 = [] \<or> s1 = '' '') \<and> (s2 = [] \<or> s2 = '' '') \<and>
          length d2 = 4 \<and> set d2 \<subseteq> digit) \<or>
       (length g = 4 \<and> set g \<subseteq> digit \<and>
        \<not> (\<exists>s1 s2 d2 r. e = s1 @ ''-'' @ s2 @ d2 @ r \<and>
          (s1 = [] \<or> s1 = '' '') \<and> (s2 = [] \<or> s2 = '' '') \<and>
          length d2 = 4 \<and> set d2 \<subseteq> digit))"
  proof
    assume "\<exists>d1 s1 s2 d2.
      g @ e = d1 @ s1 @ ''-'' @ s2 @ d2 @ e \<and> length d1 = 4 \<and> set d1 \<subseteq> digit \<and>
      (s1 = [] \<or> s1 = '' '') \<and> (s2 = [] \<or> s2 = '' '') \<and>
      length d2 = 4 \<and> set d2 \<subseteq> digit"
    then obtain d1 s1 s2 d2 where ge: "g @ e = d1 @ s1 @ ''-'' @ s2 @ d2 @ e"
      and *: "length d1 = 4" "set d1 \<subseteq> digit" "s1 = [] \<or> s1 = '' ''" "s2 = [] \<or> s2 = '' ''"
        "length d2 = 4" "set d2 \<subseteq> digit"
      by blast
    from ge have "g @ e = (d1 @ s1 @ ''-'' @ s2 @ d2) @ e" by simp
    then have "g = d1 @ s1 @ ''-'' @ s2 @ d2" by (simp only: append_same_eq)
    with * have "\<exists>d1 s1 s2 d2. g = d1 @ s1 @ ''-'' @ s2 @ d2 \<and> length d1 = 4 \<and>
          set d1 \<subseteq> digit \<and> (s1 = [] \<or> s1 = '' '') \<and> (s2 = [] \<or> s2 = '' '') \<and>
          length d2 = 4 \<and> set d2 \<subseteq> digit"
      by (intro exI conjI)
    then show ?thesis by (rule disjI1)
  next
    assume a: "(\<exists>d. g @ e = d @ e \<and> length d = 4 \<and> set d \<subseteq> digit) \<and>
      \<not> (\<exists>d1 s1 s2 d2 e'.
        g @ e = d1 @ s1 @ ''-'' @ s2 @ d2 @ e' \<and> length d1 = 4 \<and> set d1 \<subseteq> digit \<and>
        (s1 = [] \<or> s1 = '' '') \<and> (s2 = [] \<or> s2 = '' '') \<and>
        length d2 = 4 \<and> set d2 \<subseteq> digit)"
    then obtain d where "g @ e = d @ e" "length d = 4" "set d \<subseteq> digit"
      by (elim conjE exE)
    then have g: "length g = 4" "set g \<subseteq> digit" by simp_all
    have "\<not> (\<exists>s1 s2 d2 r. e = s1 @ ''-'' @ s2 @ d2 @ r \<and>
          (s1 = [] \<or> s1 = '' '') \<and> (s2 = [] \<or> s2 = '' '') \<and>
          length d2 = 4 \<and> set d2 \<subseteq> digit)"
    proof
      assume "\<exists>s1 s2 d2 r. e = s1 @ ''-'' @ s2 @ d2 @ r \<and>
          (s1 = [] \<or> s1 = '' '') \<and> (s2 = [] \<or> s2 = '' '') \<and>
          length d2 = 4 \<and> set d2 \<subseteq> digit"
      then obtain s1 s2 d2 r where e: "e = s1 @ ''-'' @ s2 @ d2 @ r"
        and *: "s1 = [] \<or> s1 = '' ''" "s2 = [] \<or> s2 = '' ''" "length d2 = 4" "set d2 \<subseteq> digit"
        by blast
      from e have ge: "g @ e = g @ s1 @ ''-'' @ s2 @ d2 @ r" by simp
      have "\<exists>d1 s1 s2 d2 e'.
        g @ e = d1 @ s1 @ ''-'' @ s2 @ d2 @ e' \<and> length d1 = 4 \<and> set d1 \<subseteq> digit \<and>
        (s1 = [] \<or> s1 = '' '') \<and> (s2 = [] \<or> s2 = '' '') \<and>
        length d2 = 4 \<and> set d2 \<subseteq> digit"
        by (intro exI conjI) (rule ge g *)+
      with conjunct2 [OF a] show False by (rule notE)
    qed
    with g have "length g = 4 \<and> set g \<subseteq> digit \<and>
        \<not> (\<exists>s1 s2 d2 r. e = s1 @ ''-'' @ s2 @ d2 @ r \<and>
          (s1 = [] \<or> s1 = '' '') \<and> (s2 = [] \<or> s2 = '' '') \<and>
          length d2 = 4 \<and> set d2 \<subseteq> digit)"
      by (intro conjI)
    then show ?thesis by (rule disjI2)
  qed
  with n first' show ?thesis by (intro exI conjI)
qed

lemma year_search_range:
  assumes first: "\<forall>p q. pre = p @ q \<and> q \<noteq> [] \<longrightarrow>
      \<not> (\<exists>m r. q @ d1 @ s1 @ ''-'' @ s2 @ d2 @ e = m @ r \<and> length m = 4 \<and> set m \<subseteq> digit)"
    and c: "length d1 = 4" "set d1 \<subseteq> digit" "s1 = [] \<or> s1 = '' ''" "s2 = [] \<or> s2 = '' ''"
      "length d2 = 4" "set d2 \<subseteq> digit"
  shows "re_search year_pattern (pre @ d1 @ s1 @ ''-'' @ s2 @ d2 @ e)
    = Some (d1 @ s1 @ ''-'' @ s2 @ d2)"
proof -
  let ?g = "d1 @ s1 @ ''-'' @ s2 @ d2"
  have ge: "?g @ e = d1 @ s1 @ ''-'' @ s2 @ d2 @ e" by simp
  from first have first': "\<forall>p q. pre = p @ q \<and> q \<noteq> [] \<longrightarrow> ends year_pattern (q @ ?g @ e) = []"
    unfolding year_pattern_none ge .
  have "?g @ e = d1 @ (s1 @ ''-'' @ s2 @ d2 @ e) \<and> length d1 = 4 \<and> set d1 \<subseteq> digit"
    using c by simp
  then have "\<exists>m r. ?g @ e = m @ r \<and> length m = 4 \<and> set m \<subseteq> digit" by blast
  then have "ends year_pattern (?g @ e) \<noteq> []" unfolding year_pattern_none by blast
  then obtain e0 es where ends: "ends year_pattern (?g @ e) = e0 # es"
    by (cases "ends year_pattern (?g @ e)") auto
  from first_end_range [OF ends ge c] have "e0 = e" .
  with ends have "ends year_pattern (?g @ e) = e # es" by simp
  from re_search_firstI [OF first' this] show ?thesis by simp
qed

lemma year_search_single:
  assumes first: "\<forall>p q. pre = p @ q \<and> q \<noteq> [] \<longrightarrow>
      \<not> (\<exists>m r. q @ d @ e = m @ r \<and> length m = 4 \<and> set m \<subseteq> digit)"
    and c: "length d = 4" "set d \<subseteq> digit"
    and no: "\<not> (\<exists>s1 s2 d2 r. e = s1 @ ''-'' @ s2 @ d2 @ r \<and>
          (s1 = [] \<or> s1 = '' '') \<and> (s2 = [] \<or> s2 = '' '') \<and>
          length d2 = 4 \<and> set d2 \<subseteq> digit)"
  shows "re_search year_pattern (pre @ d @ e) = Some d"
proof -
  from first have first': "\<forall>p q. pre = p @ q \<and> q \<noteq> [] \<longrightarrow> ends year_pattern (q @ d @ e) = []"
    unfolding year_pattern_none .
  from c have "\<exists>m r. d @ e = m @ r \<and> length m = 4 \<and> set m \<subseteq> digit" by blast
  then have "ends year_pattern (d @ e) \<noteq> []" unfolding year_pattern_none by blast
  then obtain e0 es where ends: "ends year_pattern (d @ e) = e0 # es"
    by (cases "ends year_pattern (d @ e)") auto
  from first_end_single [OF ends refl c no] have "e0 = e" .
  with ends have "ends year_pattern (d @ e) = e # es" by simp
  from re_search_firstI [OF first' this] show ?thesis .
qed

lemma digit_value_range: "c \<in> digit \<Longrightarrow> 0 \<le> digit_value c \<and> digit_value c \<le> 9"
  by (auto simp: digit_def digit_value_def)

lemma digit_value_inject: "digit_value c = digit_value c' \<Longrightarrow> c = c'"
  by (simp add: digit_value_def)

lemma decimal_2019:
  assumes "length d = 4" "set d \<subseteq> digit"
  shows "decimal d = 2019 \<longleftrightarrow> d = ''2019''"
proof
  assume "d = ''2019''"
  then show "decimal d = 2019" by (simp add: decimal_def digit_value_def)
next
  assume eq: "decimal d = 2019"
  from assms(1) obtain a b c e where d: "d = [a, b, c, e]"
    by (auto simp: length_Suc_conv numeral_eq_Suc)
  with assms(2) have r: "0 \<le> digit_value a \<and> digit_value a \<le> 9"
    "0 \<le> digit_value b \<and> digit_value b \<le> 9" "0 \<le> digit_value c \<and> digit_value c \<le> 9"
    "0 \<le> digit_value e \<and> digit_value e \<le> 9"
    by (simp_all add: digit_value_range)
  from eq d have sum: "1000 * digit_value a + 100 * digit_value b + 10 * digit_value c + digit_value e
      = 2019"
    by (simp add: decimal_def)
  with r have va: "digit_value a = 2" by linarith
  with r sum have vb: "digit_value b = 0" by linarith
  with r sum va have vc: "digit_value c = 1" by linarith
  with sum va vb have ve: "digit_value e = 9" by linarith
  note v = va vb vc ve
  have "digit_value (CHR ''2'') = 2" "digit_value (CHR ''0'') = 0" "digit_value (CHR ''1'') = 1"
    "digit_value (CHR ''9'') = 9"
    by (simp_all add: digit_value_def)
  with v have "a = CHR ''2''" "b = CHR ''0''" "c = CHR ''1''" "e = CHR ''9''"
    by (simp_all add: digit_value_inject)
  with d show "d = ''2019''" by simp
qed

lemma year_parse_single:
  assumes "\<forall>p q. pre = p @ q \<and> q \<noteq> [] \<longrightarrow>
      \<not> (\<exists>m r. q @ d @ e = m @ r \<and> length m = 4 \<and> set m \<subseteq> digit)"
    and "length d = 4" "set d \<subseteq> digit"
    and "\<not> (\<exists>s1 s2 d2 r. e = s1 @ ''-'' @ s2 @ d2 @ r \<and>
          (s1 = [] \<or> s1 = '' '') \<and> (s2 = [] \<or> s2 = '' '') \<and>
          length d2 = 4 \<and> set d2 \<subseteq> digit)"
  shows "get_copyright_year_or_range (pre @ d @ e) = Inr (Some (Single_year (decimal d)))"
proof -
  have "re_search year_pattern (pre @ d @ e) = Some d"
    using assms by (rule year_search_single)
  moreover have "ints (split (CHR ''-'') d) = Inr [decimal d]"
    using assms(2,3) by (rule year_of_single)
  ultimately show ?thesis by (simp add: get_copyright_year_or_range_def)
qed

lemma year_parse_range:
  assumes "\<forall>p q. pre = p @ q \<and> q \<noteq> [] \<longrightarrow>
      \<not> (\<exists>m r. q @ d1 @ s1 @ ''-'' @ s2 @ d2 @ e = m @ r \<and> length m = 4 \<and> set m \<subseteq> digit)"
    and "length d1 = 4" "set d1 \<subseteq> digit" "s1 = [] \<or> s1 = '' ''" "s2 = [] \<or> s2 = '' ''"
      "length d2 = 4" "set d2 \<subseteq> digit"
  shows "get_copyright_year_or_range (pre @ d1 @ s1 @ ''-'' @ s2 @ d2 @ e)
    = Inr (Some (Year_range [decimal d1, decimal d2]))"
proof -
  have "re_search year_pattern (pre @ d1 @ s1 @ ''-'' @ s2 @ d2 @ e)
      = Some (d1 @ s1 @ ''-'' @ s2 @ d2)"
    using assms by (rule year_search_range)
  moreover have "ints (split (CHR ''-'') (d1 @ s1 @ ''-'' @ s2 @ d2))
      = Inr [decimal d1, decimal d2]"
    using assms(2-7) by (rule years_of_range)
  ultimately show ?thesis by (simp add: get_copyright_year_or_range_def)
qed

lemma year_parse_cases:
  "get_copyright_year_or_range n = Inr None \<or>
   (\<exists>pre d e. n = pre @ d @ e \<and> length d = 4 \<and> set d \<subseteq> digit \<and>
      (\<forall>p q. pre = p @ q \<and> q \<noteq> [] \<longrightarrow>
         \<not> (\<exists>m r. q @ d @ e = m @ r \<and> length m = 4 \<and> set m \<subseteq> digit)) \<and>
      \<not> (\<exists>s1 s2 d2 r. e = s1 @ ''-'' @ s2 @ d2 @ r \<and>
          (s1 = [] \<or> s1 = '' '') \<and> (s2 = [] \<or> s2 = '' '') \<and>
          length d2 = 4 \<and> set d2 \<subseteq> digit) \<and>
      get_copyright_year_or_range n = Inr (Some (Single_year (decimal d)))) \<or>
   (\<exists>pre d s1 s2 d2 r. n = pre @ d @ s1 @ ''-'' @ s2 @ d2 @ r \<and>
      length d = 4 \<and> set d \<subseteq> digit \<and>
      (\<forall>p q. pre = p @ q \<and> q \<noteq> [] \<longrightarrow>
         \<not> (\<exists>m r'. q @ d @ s1 @ ''-'' @ s2 @ d2 @ r = m @ r' \<and> length m = 4 \<and> set m \<subseteq> digit)) \<and>
      (s1 = [] \<or> s1 = '' '') \<and> (s2 = [] \<or> s2 = '' '') \<and>
      length d2 = 4 \<and> set d2 \<subseteq> digit \<and>
      get_copyright_year_or_range n = Inr (Some (Year_range [decimal d, decimal d2])))"
  (is "?none \<or> ?single \<or> ?range")
proof (cases "re_search year_pattern n")
  case None
  then have ?none by (simp add: get_copyright_year_or_range_def)
  then show ?thesis by (rule disjI1)
next
  case (Some g)
  from year_search_found [OF Some] obtain pre e where n: "n = pre @ g @ e"
    and first: "\<forall>p q. pre = p @ q \<and> q \<noteq> [] \<longrightarrow>
         \<not> (\<exists>m r. q @ g @ e = m @ r \<and> length m = 4 \<and> set m \<subseteq> digit)"
    and form: "(\<exists>d1 s1 s2 d2. g = d1 @ s1 @ ''-'' @ s2 @ d2 \<and> length d1 = 4 \<and> set d1 \<subseteq> digit \<and>
          (s1 = [] \<or> s1 = '' '') \<and> (s2 = [] \<or> s2 = '' '') \<and>
          length d2 = 4 \<and> set d2 \<subseteq> digit) \<or>
       (length g = 4 \<and> set g \<subseteq> digit \<and>
        \<not> (\<exists>s1 s2 d2 r. e = s1 @ ''-'' @ s2 @ d2 @ r \<and>
          (s1 = [] \<or> s1 = '' '') \<and> (s2 = [] \<or> s2 = '' '') \<and>
          length d2 = 4 \<and> set d2 \<subseteq> digit))"
    by (elim exE conjE)
  from form show ?thesis
  proof
    assume "\<exists>d1 s1 s2 d2. g = d1 @ s1 @ ''-'' @ s2 @ d2 \<and> length d1 = 4 \<and> set d1 \<subseteq> digit \<and>
          (s1 = [] \<or> s1 = '' '') \<and> (s2 = [] \<or> s2 = '' '') \<and>
          length d2 = 4 \<and> set d2 \<subseteq> digit"
    then obtain d1 s1 s2 d2 where g: "g = d1 @ s1 @ ''-'' @ s2 @ d2"
      and c: "length d1 = 4" "set d1 \<subseteq> digit" "s1 = [] \<or> s1 = '' ''" "s2 = [] \<or> s2 = '' ''"
        "length d2 = 4" "set d2 \<subseteq> digit"
      by (elim exE conjE)
    from n g have n': "n = pre @ d1 @ s1 @ ''-'' @ s2 @ d2 @ e" by simp
    from first g have first': "\<forall>p q. pre = p @ q \<and> q \<noteq> [] \<longrightarrow>
         \<not> (\<exists>m r'. q @ d1 @ s1 @ ''-'' @ s2 @ d2 @ e = m @ r' \<and> length m = 4 \<and> set m \<subseteq> digit)"
      by simp
    from year_parse_range [OF first' c]
    have "get_copyright_year_or_range n = Inr (Some (Year_range [decimal d1, decimal d2]))"
      unfolding n' .
    with n' first' c have ?range by (intro exI conjI)
    then show ?thesis by (rule disjI2 [OF disjI2])
  next
    assume "length g = 4 \<and> set g \<subseteq> digit \<and>
        \<not> (\<exists>s1 s2 d2 r. e = s1 @ ''-'' @ s2 @ d2 @ r \<and>
          (s1 = [] \<or> s1 = '' '') \<and> (s2 = [] \<or> s2 = '' '') \<and>
          length d2 = 4 \<and> set d2 \<subseteq> digit)"
    then have c: "length g = 4" "set g \<subseteq> digit"
      "\<not> (\<exists>s1 s2 d2 r. e = s1 @ ''-'' @ s2 @ d2 @ r \<and>
          (s1 = [] \<or> s1 = '' '') \<and> (s2 = [] \<or> s2 = '' '') \<and>
          length d2 = 4 \<and> set d2 \<subseteq> digit)"
      by (rule conjunct1, rule conjunct1 [OF conjunct2], rule conjunct2 [OF conjunct2])
    from year_parse_single [OF first c]
    have "get_copyright_year_or_range n = Inr (Some (Single_year (decimal g)))"
      unfolding n .
    with n first c have ?single by (intro exI conjI)
    then show ?thesis by (rule disjI2 [OF disjI1])
  qed
qed

lemma year_parse_single_D:
  assumes "get_copyright_year_or_range n = Inr (Some (Single_year y))"
  shows "\<exists>pre d e. n = pre @ d @ e \<and> length d = 4 \<and> set d \<subseteq> digit \<and>
      (\<forall>p q. pre = p @ q \<and> q \<noteq> [] \<longrightarrow>
         \<not> (\<exists>m r. q @ d @ e = m @ r \<and> length m = 4 \<and> set m \<subseteq> digit)) \<and>
      \<not> (\<exists>s1 s2 d2 r. e = s1 @ ''-'' @ s2 @ d2 @ r \<and>
          (s1 = [] \<or> s1 = '' '') \<and> (s2 = [] \<or> s2 = '' '') \<and>
          length d2 = 4 \<and> set d2 \<subseteq> digit) \<and>
      y = decimal d"
  using year_parse_cases [of n]
proof (elim disjE)
  assume "get_copyright_year_or_range n = Inr None"
  with assms show ?thesis by simp
next
  assume "\<exists>pre d e. n = pre @ d @ e \<and> length d = 4 \<and> set d \<subseteq> digit \<and>
      (\<forall>p q. pre = p @ q \<and> q \<noteq> [] \<longrightarrow>
         \<not> (\<exists>m r. q @ d @ e = m @ r \<and> length m = 4 \<and> set m \<subseteq> digit)) \<and>
      \<not> (\<exists>s1 s2 d2 r. e = s1 @ ''-'' @ s2 @ d2 @ r \<and>
          (s1 = [] \<or> s1 = '' '') \<and> (s2 = [] \<or> s2 = '' '') \<and>
          length d2 = 4 \<and> set d2 \<subseteq> digit) \<and>
      get_copyright_year_or_range n = Inr (Some (Single_year (decimal d)))"
  then obtain pre d e where n: "n = pre @ d @ e" and d: "length d = 4" "set d \<subseteq> digit"
    and first: "\<forall>p q. pre = p @ q \<and> q \<noteq> [] \<longrightarrow>
         \<not> (\<exists>m r. q @ d @ e = m @ r \<and> length m = 4 \<and> set m \<subseteq> digit)"
    and no: "\<not> (\<exists>s1 s2 d2 r. e = s1 @ ''-'' @ s2 @ d2 @ r \<and>
          (s1 = [] \<or> s1 = '' '') \<and> (s2 = [] \<or> s2 = '' '') \<and>
          length d2 = 4 \<and> set d2 \<subseteq> digit)"
    and res: "get_copyright_year_or_range n = Inr (Some (Single_year (decimal d)))"
    by (elim exE conjE)
  from res assms have "y = decimal d" by simp
  with n d first no show ?thesis by (intro exI conjI)
next
  assume "\<exists>pre d s1 s2 d2 r. n = pre @ d @ s1 @ ''-'' @ s2 @ d2 @ r \<and>
      length d = 4 \<and> set d \<subseteq> digit \<and>
      (\<forall>p q. pre = p @ q \<and> q \<noteq> [] \<longrightarrow>
         \<not> (\<exists>m r'. q @ d @ s1 @ ''-'' @ s2 @ d2 @ r = m @ r' \<and> length m = 4 \<and> set m \<subseteq> digit)) \<and>
      (s1 = [] \<or> s1 = '' '') \<and> (s2 = [] \<or> s2 = '' '') \<and>
      length d2 = 4 \<and> set d2 \<subseteq> digit \<and>
      get_copyright_year_or_range n = Inr (Some (Year_range [decimal d, decimal d2]))"
  then obtain d d2 where
    "get_copyright_year_or_range n = Inr (Some (Year_range [decimal d, decimal d2]))"
    by (elim exE conjE)
  with assms show ?thesis by simp
qed

lemma year_parse_range_D:
  assumes "get_copyright_year_or_range n = Inr (Some (Year_range ys))"
  shows "\<exists>pre d s1 s2 d2 r. n = pre @ d @ s1 @ ''-'' @ s2 @ d2 @ r \<and>
      length d = 4 \<and> set d \<subseteq> digit \<and>
      (\<forall>p q. pre = p @ q \<and> q \<noteq> [] \<longrightarrow>
         \<not> (\<exists>m r'. q @ d @ s1 @ ''-'' @ s2 @ d2 @ r = m @ r' \<and> length m = 4 \<and> set m \<subseteq> digit)) \<and>
      (s1 = [] \<or> s1 = '' '') \<and> (s2 = [] \<or> s2 = '' '') \<and>
      length d2 = 4 \<and> set d2 \<subseteq> digit \<and>
      ys = [decimal d, decimal d2]"
  using year_parse_cases [of n]
proof (elim disjE)
  assume "get_copyright_year_or_range n = Inr None"
  with assms show ?thesis by simp
next
  assume "\<exists>pre d e. n = pre @ d @ e \<and> length d = 4 \<and> set d \<subseteq> digit \<and>
      (\<forall>p q. pre = p @ q \<and> q \<noteq> [] \<longrightarrow>
         \<not> (\<exists>m r. q @ d @ e = m @ r \<and> length m = 4 \<and> set m \<subseteq> digit)) \<and>
      \<not> (\<exists>s1 s2 d2 r. e = s1 @ ''-'' @ s2 @ d2 @ r \<and>
          (s1 = [] \<or> s1 = '' '') \<and> (s2 = [] \<or> s2 = '' '') \<and>
          length d2 = 4 \<and> set d2 \<subseteq> digit) \<and>
      get_copyright_year_or_range n = Inr (Some (Single_year (decimal d)))"
  then obtain d where "get_copyright_year_or_range n = Inr (Some (Single_year (decimal d)))"
    by (elim exE conjE)
  with assms show ?thesis by simp
next
  assume "\<exists>pre d s1 s2 d2 r. n = pre @ d @ s1 @ ''-'' @ s2 @ d2 @ r \<and>
      length d = 4 \<and> set d \<subseteq> digit \<and>
      (\<forall>p q. pre = p @ q \<and> q \<noteq> [] \<longrightarrow>
         \<not> (\<exists>m r'. q @ d @ s1 @ ''-'' @ s2 @ d2 @ r = m @ r' \<and> length m = 4 \<and> set m \<subseteq> digit)) \<and>
      (s1 = [] \<or> s1 = '' '') \<and> (s2 = [] \<or> s2 = '' '') \<and>
      length d2 = 4 \<and> set d2 \<subseteq> digit \<and>
      get_copyright_year_or_range n = Inr (Some (Year_range [decimal d, decimal d2]))"
  then obtain pre d s1 s2 d2 r where
    n: "n = pre @ d @ s1 @ ''-'' @ s2 @ d2 @ r"
    and d: "length d = 4" "set d \<subseteq> digit"
    and first: "\<forall>p q. pre = p @ q \<and> q \<noteq> [] \<longrightarrow>
         \<not> (\<exists>m r'. q @ d @ s1 @ ''-'' @ s2 @ d2 @ r = m @ r' \<and> length m = 4 \<and> set m \<subseteq> digit)"
    and s: "s1 = [] \<or> s1 = '' ''" "s2 = [] \<or> s2 = '' ''"
    and d2: "length d2 = 4" "set d2 \<subseteq> digit"
    and res: "get_copyright_year_or_range n = Inr (Some (Year_range [decimal d, decimal d2]))"
    by (elim exE conjE)
  from res assms have "ys = [decimal d, decimal d2]" by simp
  with n d first s d2 show ?thesis by (intro exI conjI)
qed

lemma decimal_text_2019: "decimal ''2019'' = 2019"
  by (simp add: decimal_def digit_value_def)

lemma year_verdict_text:
  "(get_copyright_year_or_range n = Inr (Some (Single_year 2019)) \<or>
    (\<exists>a. a < 2019 \<and> get_copyright_year_or_range n = Inr (Some (Year_range [a, 2019])))) \<longleftrightarrow>
   (\<exists>pre d post. n = pre @ d @ post \<and> length d = 4 \<and> set d \<subseteq> digit \<and>
      (\<forall>p q. pre = p @ q \<and> q \<noteq> [] \<longrightarrow>
         \<not> (\<exists>m r. q @ d @ post = m @ r \<and> length m = 4 \<and> set m \<subseteq> digit)) \<and>
      ((d = ''2019'' \<and>
        \<not> (\<exists>s1 s2 d2 r. post = s1 @ ''-'' @ s2 @ d2 @ r \<and>
          (s1 = [] \<or> s1 = '' '') \<and> (s2 = [] \<or> s2 = '' '') \<and>
          length d2 = 4 \<and> set d2 \<subseteq> digit)) \<or>
       (decimal d < 2019 \<and>
        (\<exists>s1 s2 r. post = s1 @ ''-'' @ s2 @ ''2019'' @ r \<and>
          (s1 = [] \<or> s1 = '' '') \<and> (s2 = [] \<or> s2 = '' '')))))"
  (is "?parsed \<longleftrightarrow> ?text")
proof
  assume ?parsed
  then consider
    (year) "get_copyright_year_or_range n = Inr (Some (Single_year 2019))"
  | (range) a where "a < 2019" "get_copyright_year_or_range n = Inr (Some (Year_range [a, 2019]))"
    by (elim disjE exE conjE)
  then show ?text
  proof cases
    case year
    from year_parse_single_D [OF year] obtain pre d e where n: "n = pre @ d @ e"
      and d: "length d = 4" "set d \<subseteq> digit"
      and first: "\<forall>p q. pre = p @ q \<and> q \<noteq> [] \<longrightarrow>
         \<not> (\<exists>m r. q @ d @ e = m @ r \<and> length m = 4 \<and> set m \<subseteq> digit)"
      and no: "\<not> (\<exists>s1 s2 d2 r. e = s1 @ ''-'' @ s2 @ d2 @ r \<and>
          (s1 = [] \<or> s1 = '' '') \<and> (s2 = [] \<or> s2 = '' '') \<and>
          length d2 = 4 \<and> set d2 \<subseteq> digit)"
      and res: "2019 = decimal d"
      by (elim exE conjE)
    from res have "decimal d = 2019" by simp
    with d have "d = ''2019''" by (simp only: decimal_2019)
    with no have "(d = ''2019'' \<and>
        \<not> (\<exists>s1 s2 d2 r. e = s1 @ ''-'' @ s2 @ d2 @ r \<and>
          (s1 = [] \<or> s1 = '' '') \<and> (s2 = [] \<or> s2 = '' '') \<and>
          length d2 = 4 \<and> set d2 \<subseteq> digit)) \<or>
       (decimal d < 2019 \<and>
        (\<exists>s1 s2 r. e = s1 @ ''-'' @ s2 @ ''2019'' @ r \<and>
          (s1 = [] \<or> s1 = '' '') \<and> (s2 = [] \<or> s2 = '' '')))"
      by (intro disjI1 conjI)
    with n d first show ?thesis by (intro exI conjI)
  next
    case range
    from year_parse_range_D [OF range(2)] obtain pre d s1 s2 d2 r where
      n: "n = pre @ d @ s1 @ ''-'' @ s2 @ d2 @ r"
      and d: "length d = 4" "set d \<subseteq> digit"
      and first: "\<forall>p q. pre = p @ q \<and> q \<noteq> [] \<longrightarrow>
         \<not> (\<exists>m r'. q @ d @ s1 @ ''-'' @ s2 @ d2 @ r = m @ r' \<and> length m = 4 \<and> set m \<subseteq> digit)"
      and s: "s1 = [] \<or> s1 = '' ''" "s2 = [] \<or> s2 = '' ''"
      and d2: "length d2 = 4" "set d2 \<subseteq> digit"
      and res: "[a, 2019] = [decimal d, decimal d2]"
      by (elim exE conjE)
    from res have v: "decimal d = a" "decimal d2 = 2019" by simp_all
    with d2 have "d2 = ''2019''" by (simp only: decimal_2019)
    then have "s1 @ ''-'' @ s2 @ d2 @ r = s1 @ ''-'' @ s2 @ ''2019'' @ r" by simp
    with s have "\<exists>s1' s2' r'. s1 @ ''-'' @ s2 @ d2 @ r = s1' @ ''-'' @ s2' @ ''2019'' @ r' \<and>
          (s1' = [] \<or> s1' = '' '') \<and> (s2' = [] \<or> s2' = '' '')"
      by (intro exI conjI)
    moreover from v range(1) have "decimal d < 2019" by simp
    ultimately have "(d = ''2019'' \<and>
        \<not> (\<exists>s1' s2' d2' r'. s1 @ ''-'' @ s2 @ d2 @ r = s1' @ ''-'' @ s2' @ d2' @ r' \<and>
          (s1' = [] \<or> s1' = '' '') \<and> (s2' = [] \<or> s2' = '' '') \<and>
          length d2' = 4 \<and> set d2' \<subseteq> digit)) \<or>
       (decimal d < 2019 \<and>
        (\<exists>s1' s2' r'. s1 @ ''-'' @ s2 @ d2 @ r = s1' @ ''-'' @ s2' @ ''2019'' @ r' \<and>
          (s1' = [] \<or> s1' = '' '') \<and> (s2' = [] \<or> s2' = '' '')))"
      by (intro disjI2 conjI)
    with n d first show ?thesis by (intro exI conjI)
  qed
next
  assume ?text
  then obtain pre d post where n: "n = pre @ d @ post"
    and d: "length d = 4" "set d \<subseteq> digit"
    and first: "\<forall>p q. pre = p @ q \<and> q \<noteq> [] \<longrightarrow>
         \<not> (\<exists>m r. q @ d @ post = m @ r \<and> length m = 4 \<and> set m \<subseteq> digit)"
    and form: "(d = ''2019'' \<and>
        \<not> (\<exists>s1 s2 d2 r. post = s1 @ ''-'' @ s2 @ d2 @ r \<and>
          (s1 = [] \<or> s1 = '' '') \<and> (s2 = [] \<or> s2 = '' '') \<and>
          length d2 = 4 \<and> set d2 \<subseteq> digit)) \<or>
       (decimal d < 2019 \<and>
        (\<exists>s1 s2 r. post = s1 @ ''-'' @ s2 @ ''2019'' @ r \<and>
          (s1 = [] \<or> s1 = '' '') \<and> (s2 = [] \<or> s2 = '' '')))"
    by (elim exE conjE)
  from form show ?parsed
  proof
    assume a: "d = ''2019'' \<and>
        \<not> (\<exists>s1 s2 d2 r. post = s1 @ ''-'' @ s2 @ d2 @ r \<and>
          (s1 = [] \<or> s1 = '' '') \<and> (s2 = [] \<or> s2 = '' '') \<and>
          length d2 = 4 \<and> set d2 \<subseteq> digit)"
    from year_parse_single [OF first d conjunct2 [OF a]]
    have "get_copyright_year_or_range n = Inr (Some (Single_year (decimal d)))"
      unfolding n .
    with conjunct1 [OF a] show ?thesis by (simp add: decimal_text_2019)
  next
    assume a: "decimal d < 2019 \<and>
        (\<exists>s1 s2 r. post = s1 @ ''-'' @ s2 @ ''2019'' @ r \<and>
          (s1 = [] \<or> s1 = '' '') \<and> (s2 = [] \<or> s2 = '' ''))"
    then obtain s1 s2 r where post: "post = s1 @ ''-'' @ s2 @ ''2019'' @ r"
      and s: "s1 = [] \<or> s1 = '' ''" "s2 = [] \<or> s2 = '' ''"
      by (elim exE conjE)
    have d2: "length ''2019'' = 4" "set ''2019'' \<subseteq> digit"
      by (simp_all add: digit_def)
    from year_parse_range [OF first [unfolded post] d s d2]
    have "get_copyright_year_or_range n
        = Inr (Some (Year_range [decimal d, decimal ''2019'']))"
      unfolding n post .
    with conjunct1 [OF a] show ?thesis by (simp add: decimal_text_2019)
  qed
qed

section \<open>The loop over the copyright strings\<close>

lemma intel_copyright_nonempty: "is_intel_copyright s \<noteq> None \<Longrightarrow> s \<noteq> []"
proof
  assume "is_intel_copyright s \<noteq> None" "s = []"
  then have "is_intel_copyright [] \<noteq> None" by simp
  moreover have "is_intel_copyright [] = None" by code_simp
  ultimately show False by simp
qed

lemma for_copyrights_result:
  "for_copyrights cs all acc self =
     (case filter (\<lambda>s. is_intel_copyright s \<noteq> None) cs of
        [] \<Rightarrow> Continue (acc, self)
      | n # ns \<Rightarrow>
          if acc \<noteq> [] then Break (acc, append_details (Too_many_copyrights all) self)
          else if ns = [] then Continue (n, self)
          else Break (n, append_details (Too_many_copyrights all) self))"
proof (induction cs arbitrary: acc)
  case Nil
  show ?case by simp
next
  case (Cons c cs)
  show ?case
  proof (cases "is_intel_copyright c \<noteq> None")
    case False
    then show ?thesis using Cons.IH [of acc] by simp
  next
    case True
    then have "c \<noteq> []" by (rule intel_copyright_nonempty)
    with True show ?thesis using Cons.IH [of c]
      by (simp split: list.splits)
  qed
qed

lemma append_details_inject: "append_details d self = append_details d' self \<Longrightarrow> d = d'"
proof -
  assume "append_details d self = append_details d' self"
  then have "details (append_details d self) = details (append_details d' self)" by simp
  then show "d = d'" by (simp add: append_details_def)
qed

lemma append_details_neq: "append_details d self \<noteq> self"
proof
  assume "append_details d self = self"
  then have "details (append_details d self) = details self" by simp
  then show False by (simp add: append_details_def)
qed

section \<open>The comment extractor: \<open>find\<close>, \<open>strip\<close> and the loop\<close>

lemma find_at_range: "find_at sub s i = - 1 \<or> int i \<le> find_at sub s i"
  by (induction s arbitrary: i) (auto, force)

lemma find_at_found: "0 \<le> find_at sub s i \<longleftrightarrow> (\<exists>a b. s = a @ sub @ b)"
proof (induction s arbitrary: i)
  case Nil
  then show ?case by auto
next
  case (Cons c s)
  have "(\<exists>a b. c # s = a @ sub @ b) \<longleftrightarrow> prefix sub (c # s) \<or> (\<exists>a b. s = a @ sub @ b)"
  proof
    assume "\<exists>a b. c # s = a @ sub @ b"
    then obtain a b where ab: "c # s = a @ sub @ b" by blast
    show "prefix sub (c # s) \<or> (\<exists>a b. s = a @ sub @ b)"
    proof (cases a)
      case Nil
      with ab show ?thesis by (auto simp: prefix_def)
    next
      case (Cons x a')
      with ab have "s = a' @ sub @ b" by simp
      then show ?thesis by blast
    qed
  next
    assume "prefix sub (c # s) \<or> (\<exists>a b. s = a @ sub @ b)"
    then show "\<exists>a b. c # s = a @ sub @ b"
    proof
      assume "prefix sub (c # s)"
      then obtain b where "c # s = [] @ sub @ b" by (auto simp: prefix_def)
      then show ?thesis by blast
    next
      assume "\<exists>a b. s = a @ sub @ b"
      then obtain a b where "c # s = (c # a) @ sub @ b" by auto
      then show ?thesis by blast
    qed
  qed
  then show ?case using Cons.IH [of "Suc i"] by simp
qed

lemma find_found: "0 \<le> find_str s sub 0 \<longleftrightarrow> (\<exists>a b. s = a @ sub @ b)"
  by (simp add: find_str_def find_at_found)

lemma find_not_found: "find_str s sub start = - 1 \<or> 0 \<le> find_str s sub start"
  using find_at_range [of sub "drop start s" start] by (auto simp: find_str_def)


lemma strip_keeps:
  assumes "s = x @ sub @ y" "sub \<noteq> []" "hd sub \<notin> whitespace" "last sub \<notin> whitespace"
  shows "\<exists>a b. strip s = a @ sub @ b"
proof -
  let ?P = "\<lambda>c. c \<in> whitespace"
  from assms(2) obtain h t where sub: "sub = h # t" by (cases sub) auto
  from assms(2) obtain t' l where sub': "sub = t' @ [l]" by (cases sub rule: rev_cases) auto
  have 1: "dropWhile ?P s = dropWhile ?P x @ sub @ y"
    using assms(1,3) sub by (simp add: dropWhile_append3)
  have "rev (dropWhile ?P s) = rev y @ l # (rev t' @ rev (dropWhile ?P x))"
    unfolding 1 using sub' by simp
  moreover have "\<not> ?P l" using assms(4) sub' by simp
  ultimately have "dropWhile ?P (rev (dropWhile ?P s))
      = dropWhile ?P (rev y) @ l # (rev t' @ rev (dropWhile ?P x))"
    using dropWhile_append3 [of ?P l "rev y" "rev t' @ rev (dropWhile ?P x)"] by simp
  then have "strip s = dropWhile ?P x @ sub @ rev (dropWhile ?P (rev y))"
    by (simp add: strip_def sub')
  then show ?thesis by blast
qed

lemma for_lines_append:
  "for_lines (xs @ ys) st =
     (case for_lines xs st of Continue st' \<Rightarrow> for_lines ys st' | Break st' \<Rightarrow> Break st')"
  by (induction xs arbitrary: st) (auto split: ctl.splits)



lemma body_slashes:
  assumes "\<exists>a b. line = a @ ''//'' @ b"
  shows "\<exists>m. body line (comments, False) = Continue (comments @ [strip line], m)"
proof -
  from assms obtain a b where "line = a @ ''//'' @ b" by blast
  then have "\<exists>a b. strip line = a @ ''//'' @ b"
    by (rule strip_keeps) (simp_all add: whitespace_def)
  then have found: "0 \<le> find_str (strip line) ''//'' 0" and ne: "strip line \<noteq> []"
    unfolding find_found by auto
  show ?thesis
    using found ne by (auto simp: body_def Let_def)
qed

lemma body_grows: "body l st = Continue st' \<or> body l st = Break st' \<Longrightarrow> prefix (fst st) (fst st')"
  by (auto simp: body_def Let_def split: if_splits)

lemma for_lines_grows:
  "for_lines ls st = Continue st' \<or> for_lines ls st = Break st' \<Longrightarrow> prefix (fst st) (fst st')"
proof (induction ls arbitrary: st)
  case Nil
  then show ?case by auto
next
  case (Cons l ls)
  show ?case
  proof (cases "body l st")
    case (Continue st1)
    then have "prefix (fst st) (fst st1)" using body_grows by blast
    moreover have "prefix (fst st1) (fst st')" using Cons.prems Continue by (intro Cons.IH) simp
    ultimately show ?thesis by (rule prefix_order.trans)
  next
    case (Break st1)
    then show ?thesis using Cons.prems body_grows [of l st st'] by auto
  qed
qed

section \<open>The classification of lines\<close>

text \<open>
  C3, amended: a string is an Intel copyright exactly when it contains \<open>Copyright\<close>, then
  optional white space, then \<open>(c)\<close> or \<open>(C)\<close>, which is required, then optional white space,
  digits, spaces and hyphens, then \<open>Intel\<close>, optional white space and \<open>Corporation\<close>.
\<close>

theorem is_intel_copyright_iff:
  "is_intel_copyright s \<noteq> None \<longleftrightarrow>
   (\<exists>pre w1 c w2 d w3 w4 post.
      s = pre @ ''Copyright'' @ w1 @ ''('' @ [c] @ '')'' @ w2 @ d @ w3 @ ''Intel'' @ w4 @
          ''Corporation'' @ post \<and>
      set w1 \<subseteq> whitespace \<and> c \<in> {CHR ''c'', CHR ''C''} \<and>
      set w2 \<subseteq> whitespace \<and> set d \<subseteq> digit \<union> {CHR '' '', CHR ''-''} \<and>
      set w3 \<subseteq> whitespace \<and> set w4 \<subseteq> whitespace)"
  (is "?L \<longleftrightarrow> ?R")
proof
  assume ?L
  then obtain pre u e where s: "s = pre @ u" and e: "e \<in> set (ends intel_pattern u)"
    unfolding is_intel_copyright_def re_search_not_None by blast
  from e obtain p0 w1 c w2 d w3 w4 p1 where
    u: "u = p0 @ ''Copyright'' @ w1 @ ''('' @ [c] @ '')'' @ w2 @ d @ w3 @ ''Intel'' @ w4 @
          ''Corporation'' @ p1 @ e"
    and side: "set w1 \<subseteq> whitespace" "c \<in> {CHR ''c'', CHR ''C''}" "set w2 \<subseteq> whitespace"
      "set d \<subseteq> digit \<union> {CHR '' '', CHR ''-''}" "set w3 \<subseteq> whitespace" "set w4 \<subseteq> whitespace"
    unfolding ends_intel_pattern by blast
  from s u have "s = (pre @ p0) @ ''Copyright'' @ w1 @ ''('' @ [c] @ '')'' @ w2 @ d @ w3 @
      ''Intel'' @ w4 @ ''Corporation'' @ (p1 @ e)"
    by simp
  with side show ?R by blast
next
  assume ?R
  then obtain pre w1 c w2 d w3 w4 post where
    s: "s = pre @ ''Copyright'' @ w1 @ ''('' @ [c] @ '')'' @ w2 @ d @ w3 @ ''Intel'' @ w4 @
          ''Corporation'' @ post"
    and side: "set w1 \<subseteq> whitespace" "c \<in> {CHR ''c'', CHR ''C''}" "set w2 \<subseteq> whitespace"
      "set d \<subseteq> digit \<union> {CHR '' '', CHR ''-''}" "set w3 \<subseteq> whitespace" "set w4 \<subseteq> whitespace"
    by blast
  let ?u = "[] @ ''Copyright'' @ w1 @ ''('' @ [c] @ '')'' @ w2 @ d @ w3 @ ''Intel'' @ w4 @
          ''Corporation'' @ [] @ post"
  have "post \<in> set (ends intel_pattern ?u)"
    unfolding ends_intel_pattern using side by (intro exI conjI) (rule refl, simp_all)
  moreover have "s = pre @ ?u" using s by simp
  ultimately show ?L
    unfolding is_intel_copyright_def re_search_not_None by blast
qed

text \<open>The line \<open>// Copyright (c) 2018-2019 Intel Corporation\<close> is of that form.\<close>

theorem is_intel_copyright_iff_witness:
  "\<exists>pre w1 c w2 d w3 w4 post.
      ''// Copyright (c) 2018-2019 Intel Corporation'' =
         pre @ ''Copyright'' @ w1 @ ''('' @ [c] @ '')'' @ w2 @ d @ w3 @ ''Intel'' @ w4 @
          ''Corporation'' @ post \<and>
      set w1 \<subseteq> whitespace \<and> c \<in> {CHR ''c'', CHR ''C''} \<and>
      set w2 \<subseteq> whitespace \<and> set d \<subseteq> digit \<union> {CHR '' '', CHR ''-''} \<and>
      set w3 \<subseteq> whitespace \<and> set w4 \<subseteq> whitespace"
proof -
  have "is_intel_copyright ''// Copyright (c) 2018-2019 Intel Corporation'' \<noteq> None"
    by code_simp
  then show ?thesis by (rule iffD1 [OF is_intel_copyright_iff])
qed

text \<open>
  C3, as the specification states it, makes \<open>(c)\<close> optional and
  \<open>Copyright 2019 Intel Corporation\<close> an Intel copyright. The pattern does not match it.
\<close>

theorem no_c_not_intel: "is_intel_copyright ''Copyright 2019 Intel Corporation'' = None"
  by code_simp

text \<open>
  C4, amended: a line is a copyright string exactly when it contains \<open>Copyright\<close> or
  \<open>copyright\<close> (only the first letter may be of either case), then at most one white-space
  character, then any characters but a line feed, then four decimal digits in a row.
\<close>

theorem get_copyright_strings_eq:
  "get_copyright_strings ts =
     filter (\<lambda>s. \<exists>pre c w mid d post.
        s = pre @ [c] @ ''opyright'' @ w @ mid @ d @ post \<and> c \<in> {CHR ''C'', CHR ''c''} \<and>
        (w = [] \<or> (\<exists>x. x \<in> whitespace \<and> w = [x])) \<and> set mid \<subseteq> dot \<and>
        length d = 4 \<and> set d \<subseteq> digit) ts"
  unfolding get_copyright_strings_def copyright_string_iff ..

text \<open>Of three lines, only the one with \<open>copyright\<close> and a year is kept.\<close>

theorem get_copyright_strings_eq_witness:
  "filter (\<lambda>s. \<exists>pre c w mid d post.
        s = pre @ [c] @ ''opyright'' @ w @ mid @ d @ post \<and> c \<in> {CHR ''C'', CHR ''c''} \<and>
        (w = [] \<or> (\<exists>x. x \<in> whitespace \<and> w = [x])) \<and> set mid \<subseteq> dot \<and>
        length d = 4 \<and> set d \<subseteq> digit)
     [''COPYRIGHT 2019 Foo'', ''// copyright 1999 Foo'', ''// Copyright (c) Foo'']
   = [''// copyright 1999 Foo'']"
proof -
  have "get_copyright_strings
      [''COPYRIGHT 2019 Foo'', ''// copyright 1999 Foo'', ''// Copyright (c) Foo'']
    = [''// copyright 1999 Foo'']"
    by code_simp
  then show ?thesis by (simp only: get_copyright_strings_eq)
qed

text \<open>
  C4, as the specification states it, accepts any capitalisation of the word, such as
  \<open>COPYRIGHT\<close>. The pattern is \<open>[Cc]opyright\<close>: the line \<open>COPYRIGHT 2019\<close> is not a copyright
  string.
\<close>

theorem upper_case_not_copyright: "get_copyright_strings [''COPYRIGHT 2019''] = []"
  by code_simp

section \<open>The copyright check of a file\<close>

text \<open>
  C1: when exactly one of the copyright strings of a comment block is an Intel copyright, the
  check returns without an error, and it passes exactly when the notice parses as the single
  year 2019 or as a range from \<open>a\<close> to 2019 with \<open>a < 2019\<close>; otherwise it fails, with the
  detail for an incorrect year or an incorrect range. What the notice parses as is read off
  its text: \<open>d\<close> is the first group of four digits in a row anywhere in the line; it is the
  start of a range when a hyphen, with at most one space on either side, and four more digits
  follow it, and a single year otherwise.
\<close>

theorem one_intel_copyright:
  assumes "filter (\<lambda>s. is_intel_copyright s \<noteq> None) (get_copyright_strings ts) = [n]"
  shows "\<exists>b self'. is_copyright_correct ts self = Inr (b, self') \<and>
    (b \<longleftrightarrow>
       get_copyright_year_or_range n = Inr (Some (Single_year 2019)) \<or>
       (\<exists>a. a < 2019 \<and> get_copyright_year_or_range n = Inr (Some (Year_range [a, 2019])))) \<and>
    (b \<longleftrightarrow>
       (\<exists>pre d post. n = pre @ d @ post \<and> length d = 4 \<and> set d \<subseteq> digit \<and>
          (\<forall>p q. pre = p @ q \<and> q \<noteq> [] \<longrightarrow>
             \<not> (\<exists>m r. q @ d @ post = m @ r \<and> length m = 4 \<and> set m \<subseteq> digit)) \<and>
          ((d = ''2019'' \<and>
            \<not> (\<exists>s1 s2 d2 r. post = s1 @ ''-'' @ s2 @ d2 @ r \<and>
              (s1 = [] \<or> s1 = '' '') \<and> (s2 = [] \<or> s2 = '' '') \<and>
              length d2 = 4 \<and> set d2 \<subseteq> digit)) \<or>
           (decimal d < 2019 \<and>
            (\<exists>s1 s2 r. post = s1 @ ''-'' @ s2 @ ''2019'' @ r \<and>
              (s1 = [] \<or> s1 = '' '') \<and> (s2 = [] \<or> s2 = '' '')))))) \<and>
    (b \<longrightarrow> self' = self) \<and>
    (\<not> b \<longrightarrow> self' = append_details (Incorrect_year n) self \<or>
       self' = append_details (Incorrect_range n) self)"
  (is "\<exists>b self'. ?result b self' \<and> (b \<longleftrightarrow> ?parsed) \<and> (b \<longleftrightarrow> ?text) \<and> ?pass b self' \<and> ?fail b self'")
proof -
  from assms have ne: "get_copyright_strings ts \<noteq> []" by auto
  from assms
  have "n \<in> set (filter (\<lambda>s. is_intel_copyright s \<noteq> None) (get_copyright_strings ts))"
    by simp
  then have "n \<noteq> []" using intel_copyright_nonempty by simp
  with ne assms have unfold: "is_copyright_correct ts self =
      (case get_copyright_year_or_range n of
         Inl e \<Rightarrow> Inl e
       | Inr None \<Rightarrow> Inr (False, append_details (Incorrect_format n) self)
       | Inr (Some (Single_year y)) \<Rightarrow>
           if \<not> y = YEAR then Inr (False, append_details (Incorrect_year n) self)
           else Inr (True, self)
       | Inr (Some (Year_range years)) \<Rightarrow>
           (case years of
              [from_year, to_year] \<Rightarrow>
                if \<not> to_year = YEAR \<or> to_year \<le> from_year
                then Inr (False, append_details (Incorrect_range n) self)
                else Inr (True, self)
            | _ \<Rightarrow> Inl ValueError))"
    by (simp add: is_copyright_correct_def Let_def for_copyrights_result del: not_None_eq)
  from \<open>n \<in> set (filter _ _)\<close> have "n \<in> set (get_copyright_strings ts)"
    by simp
  then have "re_search year_pattern n \<noteq> None"
    by (simp add: get_copyright_strings_def copyright_string_has_year del: not_None_eq)
  with year_or_range_cases [of n] consider
    (year) y where "get_copyright_year_or_range n = Inr (Some (Single_year y))"
  | (range) a b where "get_copyright_year_or_range n = Inr (Some (Year_range [a, b]))"
    by auto
  then have "\<exists>b self'. ?result b self' \<and> (b \<longleftrightarrow> ?parsed) \<and> ?pass b self' \<and> ?fail b self'"
  proof cases
    case year
    show ?thesis
    proof (cases "y = 2019")
      case True
      with year have "?result True self \<and> (True \<longleftrightarrow> ?parsed) \<and> ?pass True self \<and> ?fail True self"
        unfolding unfold by (simp add: YEAR_def)
      then show ?thesis by blast
    next
      case False
      with year have "?result False (append_details (Incorrect_year n) self) \<and>
          (False \<longleftrightarrow> ?parsed) \<and> ?pass False (append_details (Incorrect_year n) self) \<and>
          ?fail False (append_details (Incorrect_year n) self)"
        unfolding unfold by (simp add: YEAR_def)
      then show ?thesis by blast
    qed
  next
    case range
    show ?thesis
    proof (cases "b = 2019 \<and> a < 2019")
      case True
      with range have "?result True self \<and> (True \<longleftrightarrow> ?parsed) \<and> ?pass True self \<and> ?fail True self"
        unfolding unfold by (simp add: YEAR_def)
      then show ?thesis by blast
    next
      case False
      with range have "?result False (append_details (Incorrect_range n) self) \<and>
          (False \<longleftrightarrow> ?parsed) \<and> ?pass False (append_details (Incorrect_range n) self) \<and>
          ?fail False (append_details (Incorrect_range n) self)"
        unfolding unfold by (auto simp add: YEAR_def)
      then show ?thesis by blast
    qed
  qed
  then obtain b self' where 1: "?result b self'" and 2: "b \<longleftrightarrow> ?parsed"
    and 3: "?pass b self'" and 4: "?fail b self'"
    by (elim exE conjE)
  from 2 have 5: "b \<longleftrightarrow> ?text" by (simp only: year_verdict_text [of n])
  from 1 2 5 3 4 show ?thesis by (intro exI conjI)
qed

text \<open>
  Three blocks of one notice each. The first has the range 2018-2019 and passes. The second
  has the copyright year 2018 after an earlier \<open>2019\<close> in the line, which is the group read,
  and passes. The third has two spaces around the hyphen, so it is read as the single year 2018
  and fails.
\<close>

theorem one_intel_copyright_witness:
  "is_copyright_correct [''// Copyright (c) 2018-2019 Intel Corporation'']
     \<lparr>details = [], src_file = ''a.c''\<rparr> = Inr (True, \<lparr>details = [], src_file = ''a.c''\<rparr>) \<and>
   is_copyright_correct [''/* rev 2019: Copyright (c) 2018 Intel Corporation */'']
     \<lparr>details = [], src_file = ''a.c''\<rparr> = Inr (True, \<lparr>details = [], src_file = ''a.c''\<rparr>) \<and>
   (\<exists>self'. is_copyright_correct [''// Copyright (c) 2018  -  2019 Intel Corporation'']
      \<lparr>details = [], src_file = ''a.c''\<rparr> = Inr (False, self'))"
  (is "?first \<and> ?second \<and> ?third")
proof (intro conjI)
  have one: "filter (\<lambda>s. is_intel_copyright s \<noteq> None)
      (get_copyright_strings [''// Copyright (c) 2018-2019 Intel Corporation''])
    = [''// Copyright (c) 2018-2019 Intel Corporation'']"
    by code_simp
  have parsed: "get_copyright_year_or_range ''// Copyright (c) 2018-2019 Intel Corporation''
    = Inr (Some (Year_range [2018, 2019]))"
    by code_simp
  from one_intel_copyright [OF one, of "\<lparr>details = [], src_file = ''a.c''\<rparr>"]
  obtain b self' where
    result: "is_copyright_correct [''// Copyright (c) 2018-2019 Intel Corporation'']
      \<lparr>details = [], src_file = ''a.c''\<rparr> = Inr (b, self')"
    and verdict: "b \<longleftrightarrow>
       get_copyright_year_or_range ''// Copyright (c) 2018-2019 Intel Corporation''
         = Inr (Some (Single_year 2019)) \<or>
       (\<exists>a. a < 2019 \<and>
          get_copyright_year_or_range ''// Copyright (c) 2018-2019 Intel Corporation''
            = Inr (Some (Year_range [a, 2019])))"
    and pass: "b \<longrightarrow> self' = \<lparr>details = [], src_file = ''a.c''\<rparr>"
    by (elim exE conjE)
  from verdict have b unfolding parsed by simp
  with result pass show ?first by simp
next
  have one: "filter (\<lambda>s. is_intel_copyright s \<noteq> None)
      (get_copyright_strings [''/* rev 2019: Copyright (c) 2018 Intel Corporation */''])
    = [''/* rev 2019: Copyright (c) 2018 Intel Corporation */'']"
    by code_simp
  have parsed: "get_copyright_year_or_range ''/* rev 2019: Copyright (c) 2018 Intel Corporation */''
    = Inr (Some (Single_year 2019))"
    by code_simp
  from one_intel_copyright [OF one, of "\<lparr>details = [], src_file = ''a.c''\<rparr>"]
  obtain b self' where
    result: "is_copyright_correct [''/* rev 2019: Copyright (c) 2018 Intel Corporation */'']
      \<lparr>details = [], src_file = ''a.c''\<rparr> = Inr (b, self')"
    and verdict: "b \<longleftrightarrow>
       get_copyright_year_or_range ''/* rev 2019: Copyright (c) 2018 Intel Corporation */''
         = Inr (Some (Single_year 2019)) \<or>
       (\<exists>a. a < 2019 \<and>
          get_copyright_year_or_range ''/* rev 2019: Copyright (c) 2018 Intel Corporation */''
            = Inr (Some (Year_range [a, 2019])))"
    and pass: "b \<longrightarrow> self' = \<lparr>details = [], src_file = ''a.c''\<rparr>"
    by (elim exE conjE)
  from verdict have b unfolding parsed by simp
  with result pass show ?second by simp
next
  have one: "filter (\<lambda>s. is_intel_copyright s \<noteq> None)
      (get_copyright_strings [''// Copyright (c) 2018  -  2019 Intel Corporation''])
    = [''// Copyright (c) 2018  -  2019 Intel Corporation'']"
    by code_simp
  have parsed: "get_copyright_year_or_range ''// Copyright (c) 2018  -  2019 Intel Corporation''
    = Inr (Some (Single_year 2018))"
    by code_simp
  from one_intel_copyright [OF one, of "\<lparr>details = [], src_file = ''a.c''\<rparr>"]
  obtain b self' where
    result: "is_copyright_correct [''// Copyright (c) 2018  -  2019 Intel Corporation'']
      \<lparr>details = [], src_file = ''a.c''\<rparr> = Inr (b, self')"
    and verdict: "b \<longleftrightarrow>
       get_copyright_year_or_range ''// Copyright (c) 2018  -  2019 Intel Corporation''
         = Inr (Some (Single_year 2019)) \<or>
       (\<exists>a. a < 2019 \<and>
          get_copyright_year_or_range ''// Copyright (c) 2018  -  2019 Intel Corporation''
            = Inr (Some (Year_range [a, 2019])))"
    by (elim exE conjE)
  from verdict have "\<not> b" unfolding parsed by simp
  with result show ?third by simp
qed

text \<open>
  C5: when two or more of the copyright strings of a comment block are Intel copyrights, the
  check fails, and the detail appended is "Too many copyrights" with all the copyright
  strings of the block, whatever the years in the notices.
\<close>

theorem too_many_copyrights:
  assumes "2 \<le> length (filter (\<lambda>s. is_intel_copyright s \<noteq> None)
    (get_copyright_strings ts))"
  shows "is_copyright_correct ts self =
    Inr (False, append_details (Too_many_copyrights (get_copyright_strings ts)) self)"
proof -
  let ?intel = "filter (\<lambda>s. is_intel_copyright s \<noteq> None) (get_copyright_strings ts)"
  from assms obtain n r where "?intel = n # r" by (cases ?intel) auto
  moreover from this assms obtain m ns where "r = m # ns" by (cases r) auto
  ultimately have f: "?intel = n # m # ns" by simp
  then have "get_copyright_strings ts \<noteq> []" by auto
  then show ?thesis
    by (simp add: is_copyright_correct_def Let_def for_copyrights_result f del: not_None_eq)
qed

theorem too_many_copyrights_witness:
  "2 \<le> length (filter (\<lambda>s. is_intel_copyright s \<noteq> None)
      (get_copyright_strings
         [''// Copyright (c) 2018 Intel Corporation'',
          ''// Copyright (c) 2019 Intel Corporation''])) \<and>
   is_copyright_correct
     [''// Copyright (c) 2018 Intel Corporation'', ''// Copyright (c) 2019 Intel Corporation'']
     \<lparr>details = [], src_file = ''a.c''\<rparr> =
     Inr (False,
       \<lparr>details = [Src_file ''a.c'',
          Too_many_copyrights
            [''// Copyright (c) 2018 Intel Corporation'',
             ''// Copyright (c) 2019 Intel Corporation'']],
        src_file = ''a.c''\<rparr>)"
  (is "?two \<and> ?result")
proof
  show two: ?two by code_simp
  have strings: "get_copyright_strings
      [''// Copyright (c) 2018 Intel Corporation'', ''// Copyright (c) 2019 Intel Corporation'']
    = [''// Copyright (c) 2018 Intel Corporation'', ''// Copyright (c) 2019 Intel Corporation'']"
    by code_simp
  from too_many_copyrights [OF two, of "\<lparr>details = [], src_file = ''a.c''\<rparr>"]
  show ?result by (simp add: strings append_details_def del: not_None_eq)
qed

text \<open>
  C6: a comment block with at least one copyright string and no Intel copyright among them
  passes the check, and nothing is appended to the details; a block with no copyright string
  fails it with the detail "Missing copyright".
\<close>

theorem third_party_or_missing:
  "(get_copyright_strings ts \<noteq> [] \<and>
    filter (\<lambda>s. is_intel_copyright s \<noteq> None) (get_copyright_strings ts) = []
      \<longrightarrow> is_copyright_correct ts self = Inr (True, self)) \<and>
   (get_copyright_strings ts = []
      \<longrightarrow> is_copyright_correct ts self = Inr (False, append_details Missing_copyright self))"
  by (simp add: is_copyright_correct_def Let_def for_copyrights_result del: not_None_eq)

theorem third_party_or_missing_witness:
  "is_copyright_correct [''// Copyright 1999 Foo Ltd''] \<lparr>details = [], src_file = ''a.c''\<rparr>
     = Inr (True, \<lparr>details = [], src_file = ''a.c''\<rparr>) \<and>
   is_copyright_correct [''// no notice here''] \<lparr>details = [], src_file = ''a.c''\<rparr>
     = Inr (False, \<lparr>details = [Src_file ''a.c'', Missing_copyright], src_file = ''a.c''\<rparr>)"
  (is "?third \<and> ?missing")
proof
  have third: "get_copyright_strings [''// Copyright 1999 Foo Ltd''] \<noteq> [] \<and>
      filter (\<lambda>s. is_intel_copyright s \<noteq> None)
        (get_copyright_strings [''// Copyright 1999 Foo Ltd'']) = []"
    by code_simp
  with third_party_or_missing [of "[''// Copyright 1999 Foo Ltd'']"]
  show ?third by blast
  have none: "get_copyright_strings [''// no notice here''] = []"
    by code_simp
  with third_party_or_missing [of "[''// no notice here'']"
      "\<lparr>details = [], src_file = ''a.c''\<rparr>"]
  have "is_copyright_correct [''// no notice here''] \<lparr>details = [], src_file = ''a.c''\<rparr>
      = Inr (False, append_details Missing_copyright \<lparr>details = [], src_file = ''a.c''\<rparr>)"
    by blast
  then show ?missing by (simp add: append_details_def)
qed

text \<open>
  C9: for a copyright string, \<open>get_copyright_year_or_range\<close> returns a year or a range, never
  \<open>None\<close> and never an error; so \<open>is_copyright_correct\<close> never returns through the branch
  that reports the required format.
\<close>

theorem year_parsing_succeeds:
  "(s \<in> set (get_copyright_strings ts) \<longrightarrow>
      (\<exists>y. get_copyright_year_or_range s = Inr (Some y))) \<and>
   (\<forall>n. is_copyright_correct ts self \<noteq> Inr (False, append_details (Incorrect_format n) self))"
proof (intro conjI impI allI)
  assume "s \<in> set (get_copyright_strings ts)"
  then have "re_search year_pattern s \<noteq> None"
    by (simp add: get_copyright_strings_def copyright_string_has_year del: not_None_eq)
  with year_or_range_cases [of s] show "\<exists>y. get_copyright_year_or_range s = Inr (Some y)"
    by auto
next
  fix n
  let ?cs = "get_copyright_strings ts"
  let ?bad = "Inr (False, append_details (Incorrect_format n) self)"
  show "is_copyright_correct ts self \<noteq> ?bad"
  proof (cases "?cs = []")
    case True
    then have "is_copyright_correct ts self = Inr (False, append_details Missing_copyright self)"
      by (simp add: is_copyright_correct_def)
    then show ?thesis by (auto dest: append_details_inject)
  next
    case ne: False
    show ?thesis
    proof (cases "filter (\<lambda>s. is_intel_copyright s \<noteq> None) ?cs")
      case Nil
      with ne have "is_copyright_correct ts self = Inr (True, self)"
        by (simp add: is_copyright_correct_def Let_def for_copyrights_result del: not_None_eq)
      then show ?thesis by simp
    next
      case (Cons m ms)
      show ?thesis
      proof (cases ms)
        case Nil
        with Cons have m: "m \<in> set (filter (\<lambda>s. is_intel_copyright s \<noteq> None) ?cs)" by simp
        then have "m \<noteq> []" using intel_copyright_nonempty by simp
        from m have "re_search year_pattern m \<noteq> None"
          by (simp add: get_copyright_strings_def copyright_string_has_year del: not_None_eq)
        with year_or_range_cases [of m] consider
          y where "get_copyright_year_or_range m = Inr (Some (Single_year y))"
          | a b where "get_copyright_year_or_range m = Inr (Some (Year_range [a, b]))"
          by auto
        then show ?thesis
        proof cases
          case 1
          with ne Cons Nil \<open>m \<noteq> []\<close> show ?thesis
            by (auto simp add: is_copyright_correct_def Let_def for_copyrights_result
                simp del: not_None_eq dest: append_details_inject)
        next
          case 2
          with ne Cons Nil \<open>m \<noteq> []\<close> show ?thesis
            by (auto simp add: is_copyright_correct_def Let_def for_copyrights_result
                simp del: not_None_eq dest: append_details_inject)
        qed
      next
        case (Cons m' ms')
        with ne \<open>filter _ ?cs = m # ms\<close>
        have "is_copyright_correct ts self =
            Inr (False, append_details (Too_many_copyrights ?cs) self)"
          by (simp add: is_copyright_correct_def Let_def for_copyrights_result del: not_None_eq)
        then show ?thesis by (auto dest: append_details_inject)
      qed
    qed
  qed
qed

theorem year_parsing_succeeds_witness:
  "''// Copyright (c) 2018 Intel Corporation''
     \<in> set (get_copyright_strings [''// Copyright (c) 2018 Intel Corporation'']) \<and>
   (\<exists>y. get_copyright_year_or_range ''// Copyright (c) 2018 Intel Corporation''
      = Inr (Some y)) \<and>
   is_copyright_correct [''// Copyright (c) 2018 Intel Corporation'']
     \<lparr>details = [], src_file = ''a.c''\<rparr>
     \<noteq> Inr (False,
          append_details (Incorrect_format ''// Copyright (c) 2018 Intel Corporation'')
            \<lparr>details = [], src_file = ''a.c''\<rparr>)"
proof -
  have member: "''// Copyright (c) 2018 Intel Corporation''
      \<in> set (get_copyright_strings [''// Copyright (c) 2018 Intel Corporation''])"
    by code_simp
  from member
    year_parsing_succeeds [of "''// Copyright (c) 2018 Intel Corporation''"
      "[''// Copyright (c) 2018 Intel Corporation'']" "\<lparr>details = [], src_file = ''a.c''\<rparr>"]
  show ?thesis by blast
qed

text \<open>
  C2, as the specification states it: the block \<open>/* Copyright 2019-2018 Intel Corporation */\<close>
  fails the check. It does not: the line has no \<open>(c)\<close>, so it is not an Intel copyright, and a
  block with a copyright string and no Intel copyright passes.
\<close>

theorem no_c_block_passes:
  "is_copyright_correct [''/* Copyright 2019-2018 Intel Corporation */'']
     \<lparr>details = [], src_file = ''a.c''\<rparr>
   = Inr (True, \<lparr>details = [], src_file = ''a.c''\<rparr>)"
  by code_simp

text \<open>
  C2, amended: with the \<open>(c)\<close> the Intel pattern asks for, the block
  \<open>/* Copyright (c) 2019-2018 Intel Corporation */\<close> fails the check, and the detail
  appended is the one for an incorrect range.
\<close>

theorem reversed_range_fails:
  "is_copyright_correct [''/* Copyright (c) 2019-2018 Intel Corporation */''] self
   = Inr (False,
       append_details (Incorrect_range ''/* Copyright (c) 2019-2018 Intel Corporation */'') self)"
proof -
  have strings: "get_copyright_strings [''/* Copyright (c) 2019-2018 Intel Corporation */'']
      = [''/* Copyright (c) 2019-2018 Intel Corporation */'']"
    by code_simp
  have intel: "is_intel_copyright ''/* Copyright (c) 2019-2018 Intel Corporation */'' \<noteq> None"
    by code_simp
  have years: "get_copyright_year_or_range ''/* Copyright (c) 2019-2018 Intel Corporation */''
      = Inr (Some (Year_range [2019, 2018]))"
    by code_simp
  show ?thesis
    by (simp add: is_copyright_correct_def strings intel years YEAR_def)
qed

theorem reversed_range_fails_witness:
  "is_copyright_correct [''/* Copyright (c) 2019-2018 Intel Corporation */'']
     \<lparr>details = [], src_file = ''a.c''\<rparr>
   = Inr (False,
       \<lparr>details = [Src_file ''a.c'',
          Incorrect_range ''/* Copyright (c) 2019-2018 Intel Corporation */''],
        src_file = ''a.c''\<rparr>)"
  using reversed_range_fails [of "\<lparr>details = [], src_file = ''a.c''\<rparr>"]
  by (simp add: append_details_def)

section \<open>The comment extractor\<close>



text \<open>
  C10: when the extractor is outside a block comment and the next line contains \<open>//\<close>
  anywhere, it appends the trimmed line to the comments and goes on with the rest of the
  stream; the line is then part of the result, also when it begins with code.
\<close>

theorem slash_line_recorded:
  assumes "for_lines pre ([], False) = Continue (comments, False)"
    and "\<exists>a b. line = a @ ''//'' @ b"
  shows "(\<exists>m. for_lines (pre @ line # rest) ([], False)
            = for_lines rest (comments @ [strip line], m)) \<and>
         prefix (comments @ [strip line]) (get_leading_comments (pre @ line # rest))"
proof -
  from body_slashes [OF assms(2)] obtain m where
    m: "body line (comments, False) = Continue (comments @ [strip line], m)" by blast
  have eq: "for_lines (pre @ line # rest) ([], False)
      = for_lines rest (comments @ [strip line], m)"
    using assms(1) m by (simp add: for_lines_append)
  have "prefix (comments @ [strip line]) (get_leading_comments (pre @ line # rest))"
  proof (cases "for_lines rest (comments @ [strip line], m)")
    case (Continue st')
    then have "prefix (fst (comments @ [strip line], m)) (fst st')"
      using for_lines_grows [of rest "(comments @ [strip line], m)" st'] by simp
    then show ?thesis using eq Continue by (simp add: get_leading_comments_def)
  next
    case (Break st')
    then have "prefix (fst (comments @ [strip line], m)) (fst st')"
      using for_lines_grows [of rest "(comments @ [strip line], m)" st'] by simp
    then show ?thesis using eq Break by (simp add: get_leading_comments_def)
  qed
  with eq show ?thesis by blast
qed

theorem slash_line_recorded_witness:
  "prefix [''int x; // note''] (get_leading_comments [''int x; // note'', ''// c'', ''y = 1;''])"
proof -
  have pre: "for_lines [] ([], False) = Continue ([], False)"
    by simp
  have "0 \<le> find_str ''int x; // note'' ''//'' 0"
    by code_simp
  then have slashes: "\<exists>a b. ''int x; // note'' = a @ ''//'' @ b"
    unfolding find_found .
  have strips: "strip ''int x; // note'' = ''int x; // note''"
    by code_simp
  from slash_line_recorded [OF pre slashes, of "[''// c'', ''y = 1;'']"] show ?thesis
    by (simp add: strips)
qed

section \<open>The author check\<close>

text \<open>
  C7: the author check passes exactly when the name is neither \<open>root\<close> nor \<open>mediasdk\<close>
  and the email does not end with \<open>@localhost.localdomain\<close>: a name of the deny-list
  fails it whatever the email, and such an email fails it whatever the name.
\<close>

theorem check_passes_iff:
  "fst (check revision commit log) \<longleftrightarrow>
     author_name commit \<noteq> ''root'' \<and> author_name commit \<noteq> ''mediasdk'' \<and>
     \<not> (\<exists>p. author_email commit = p @ ''@localhost.localdomain'')"
  by (simp add: check_def get_author_info_def check_author_def check_email_def endswith_def
      suffix_def)

theorem check_passes_iff_witness:
  "fst (check ''HEAD'' \<lparr>author_name = ''dev'', author_email = ''dev@company.com''\<rparr> []) \<and>
   \<not> fst (check ''HEAD'' \<lparr>author_name = ''root'', author_email = ''dev@company.com''\<rparr> []) \<and>
   \<not> fst (check ''HEAD''
       \<lparr>author_name = ''dev'', author_email = ''root@localhost.localdomain''\<rparr> [])"
proof -
  have "\<not> endswith ''dev@company.com'' ''@localhost.localdomain''"
    by code_simp
  then have ok: "\<not> (\<exists>p. ''dev@company.com'' = p @ ''@localhost.localdomain'')"
    unfolding endswith_def suffix_def .
  have bad: "''root@localhost.localdomain'' = ''root'' @ ''@localhost.localdomain''"
    by simp
  show ?thesis
    using ok bad
      check_passes_iff [of "''HEAD''"
        "\<lparr>author_name = ''dev'', author_email = ''dev@company.com''\<rparr>" "[]"]
      check_passes_iff [of "''HEAD''"
        "\<lparr>author_name = ''root'', author_email = ''dev@company.com''\<rparr>" "[]"]
      check_passes_iff [of "''HEAD''"
        "\<lparr>author_name = ''dev'', author_email = ''root@localhost.localdomain''\<rparr>" "[]"]
    by (simp del: append.simps)
qed

end
